theory Spec2Isabelle
  imports Main "HOL-Library.Sublist" "HOL-Library.AList"
begin

section \<open>JSON values and the JavaScript operations the filter uses\<close>

text \<open>
  The schema reaches the filter through \<^verbatim>\<open>JSON.parse(JSON.stringify(...))\<close> (line 103), so
  every value the filter sees is a plain JSON value. An object is the list of its own
  properties in enumeration order (the order of \<^verbatim>\<open>Object.entries\<close>); \<^verbatim>\<open>undefined\<close>, the
  result of reading a missing property, is \<open>None\<close> of \<open>json option\<close>. Of a number only
  zero / non-zero is ever observed (truthiness), so numbers are integers here; a
  character stands for one code unit of the source string.
\<close>

datatype json =
    JNull
  | JBool bool
  | JNum int
  | JStr string
  | JArr "json list"
  | JObj "(string \<times> json) list"

datatype error = TypeError

type_synonym props = "(string \<times> json) list"

text \<open>JavaScript truthiness of a value or \<^verbatim>\<open>undefined\<close>.\<close>

fun truthy :: "json option \<Rightarrow> bool" where
  "truthy None = False"
| "truthy (Some JNull) = False"
| "truthy (Some (JBool b)) = b"
| "truthy (Some (JNum n)) = (n \<noteq> 0)"
| "truthy (Some (JStr s)) = (s \<noteq> [])"
| "truthy (Some (JArr xs)) = True"
| "truthy (Some (JObj kvs)) = True"

text \<open>
  \<^verbatim>\<open>v.name\<close> for the four names the filter reads (\<^verbatim>\<open>description\<close>, \<^verbatim>\<open>type\<close>,
  \<^verbatim>\<open>properties\<close>, \<^verbatim>\<open>items\<close>): none of them exists on a built-in prototype, so an
  object answers with its own property, every other non-null value with
  \<^verbatim>\<open>undefined\<close>, and \<^verbatim>\<open>null\<close> raises.
\<close>

fun field :: "json \<Rightarrow> string \<Rightarrow> json option" where
  "field (JObj kvs) name = map_of kvs name"
| "field v name = None"

definition get :: "json \<Rightarrow> string \<Rightarrow> error + json option" where
  "get v name = (if v = JNull then Inl TypeError else Inr (field v name))"

text \<open>The decimal rendering of an index: the keys of an array and of a string.\<close>

definition digit_char :: "nat \<Rightarrow> char" where
  "digit_char n = ''0123456789'' ! n"

fun string_of_nat :: "nat \<Rightarrow> string" where
  "string_of_nat n =
     (if n < 10 then [digit_char n]
      else string_of_nat (n div 10) @ [digit_char (n mod 10)])"

declare string_of_nat.simps [simp del]

text \<open>
  An array index is a key that is the decimal rendering of a number below
  \<open>2\<^sup>3\<^sup>2 - 1\<close>. \<open>nat_of_string\<close> reads a rendering back.
\<close>

definition nat_of_string :: "string \<Rightarrow> nat" where
  "nat_of_string s = foldl (\<lambda>n c. 10 * n + (of_char c - 48)) 0 s"

definition is_index :: "string \<Rightarrow> bool" where
  "is_index k = (nat_of_string k < 4294967295 \<and> string_of_nat (nat_of_string k) = k)"

text \<open>
  The own enumerable properties of a value, as object spread and \<^verbatim>\<open>Object.entries\<close>
  list them: an object's properties, the indexed elements of an array, the indexed
  characters of a string, nothing for a number or a boolean. Spread lists nothing for
  \<^verbatim>\<open>null\<close> either; \<^verbatim>\<open>Object.entries\<close> raises on \<^verbatim>\<open>null\<close> and \<^verbatim>\<open>undefined\<close>.
\<close>

fun entries :: "json \<Rightarrow> props" where
  "entries (JObj kvs) = kvs"
| "entries (JArr xs) = zip (map string_of_nat [0..<length xs]) xs"
| "entries (JStr s) = zip (map string_of_nat [0..<length s]) (map (\<lambda>c. JStr [c]) s)"
| "entries v = []"

fun object_entries :: "json option \<Rightarrow> error + props" where
  "object_entries None = Inl TypeError"
| "object_entries (Some JNull) = Inl TypeError"
| "object_entries (Some v) = Inr (entries v)"

text \<open>\<^verbatim>\<open>typeof v === 'object'\<close> for a truthy \<open>v\<close>.\<close>

fun is_object :: "json \<Rightarrow> bool" where
  "is_object (JObj kvs) = True"
| "is_object (JArr xs) = True"
| "is_object v = False"

text \<open>
  \<^verbatim>\<open>d.includes(searchString)\<close> on a truthy description \<open>d\<close>: substring search on a
  string, membership on an array, and a TypeError on anything else (no such method).
\<close>

fun description_includes :: "json \<Rightarrow> string \<Rightarrow> error + bool" where
  "description_includes (JStr s) q = Inr (sublist q s)"
| "description_includes (JArr xs) q = Inr (JStr q \<in> set xs)"
| "description_includes v q = Inl TypeError"

text \<open>Line 66: the initial value of \<^verbatim>\<open>include\<close>; \<^verbatim>\<open>||\<close> and \<^verbatim>\<open>&&\<close> short-circuit.\<close>

definition direct_match :: "string \<Rightarrow> string \<Rightarrow> json \<Rightarrow> error + bool" where
  "direct_match searchString key val =
     (if sublist searchString key then Inr True
      else case get val ''description'' of
             Inl e \<Rightarrow> Inl e
           | Inr None \<Rightarrow> Inr False
           | Inr (Some d) \<Rightarrow>
               if truthy (Some d) then description_includes d searchString else Inr False)"

subsection \<open>The accumulator object\<close>

text \<open>
  \<^verbatim>\<open>filtered\<close> starts as \<^verbatim>\<open>{}\<close> and is written with \<^verbatim>\<open>filtered[key] = ...\<close>, an ordinary
  property assignment, and asked with \<^verbatim>\<open>filtered.hasOwnProperty(key)\<close>, a method looked
  up through the prototype chain. Both depend on the prototype, which the assignment
  itself can change when the key is \<^verbatim>\<open>__proto__\<close>.
\<close>

datatype proto = ObjectPrototype | NullPrototype | ValuePrototype json

record jsobj =
  own :: props
  proto :: proto

definition empty_obj :: jsobj where
  "empty_obj = \<lparr>own = [], proto = ObjectPrototype\<rparr>"

definition has_key :: "(string \<times> 'a) list \<Rightarrow> string \<Rightarrow> bool" where
  "has_key kvs k = (map_of kvs k \<noteq> None)"

text \<open>
  Whether the prototype object itself owns a property of that name. It is asked for
  \<^verbatim>\<open>__proto__\<close> and \<^verbatim>\<open>hasOwnProperty\<close> only, which no array owns.
\<close>

fun proto_owns :: "proto \<Rightarrow> string \<Rightarrow> bool" where
  "proto_owns (ValuePrototype (JObj kvs)) k = has_key kvs k"
| "proto_owns p k = False"

text \<open>
  The own properties of an object are enumerated with the array indices first, in
  ascending numeric order, and the other keys after them in the order of their
  creation. \<open>js_lt k1 k2\<close>: a property \<open>k2\<close> created after \<open>k1\<close> is enumerated after it.
  \<open>js_create\<close> puts a new property at its place in the enumeration, \<open>js_put\<close>
  overwrites the value of a property in place or creates it.
\<close>

definition js_lt :: "string \<Rightarrow> string \<Rightarrow> bool" where
  "js_lt k1 k2 =
     (if is_index k2 then is_index k1 \<and> nat_of_string k1 < nat_of_string k2 else True)"

fun js_create :: "(string \<times> 'a) list \<Rightarrow> string \<Rightarrow> 'a \<Rightarrow> (string \<times> 'a) list" where
  "js_create [] k v = [(k, v)]"
| "js_create ((k', v') # kvs) k v =
     (if js_lt k' k then (k', v') # js_create kvs k v else (k, v) # (k', v') # kvs)"

definition js_put :: "(string \<times> 'a) list \<Rightarrow> string \<Rightarrow> 'a \<Rightarrow> (string \<times> 'a) list" where
  "js_put kvs k v = (if has_key kvs k then AList.update k v kvs else js_create kvs k v)"

text \<open>
  \<^verbatim>\<open>obj[key] = v\<close>. An own property is overwritten in place. Otherwise the chain is
  searched: a data property found on the way (all properties of JSON values and all
  built-in methods are writable data properties) or no property at all creates a new
  own property; only \<^verbatim>\<open>__proto__\<close>, when the search reaches the accessor of
  \<^verbatim>\<open>Object.prototype\<close>, calls its setter instead, which replaces the prototype when
  \<open>v\<close> is an object or null and does nothing otherwise.
\<close>

definition js_set :: "jsobj \<Rightarrow> string \<Rightarrow> json \<Rightarrow> jsobj" where
  "js_set obj key v =
     (if key = ''__proto__'' \<and> \<not> has_key (own obj) key
         \<and> proto obj \<noteq> NullPrototype \<and> \<not> proto_owns (proto obj) key
      then (case v of
              JObj kvs \<Rightarrow> obj\<lparr>proto := ValuePrototype v\<rparr>
            | JArr xs \<Rightarrow> obj\<lparr>proto := ValuePrototype v\<rparr>
            | JNull \<Rightarrow> obj\<lparr>proto := NullPrototype\<rparr>
            | _ \<Rightarrow> obj)
      else obj\<lparr>own := js_put (own obj) key v\<rparr>)"

text \<open>
  \<^verbatim>\<open>obj.hasOwnProperty(key)\<close>: the method is the one of \<^verbatim>\<open>Object.prototype\<close> unless an
  own property or a property of the prototype shadows it with a JSON value, which is
  not callable.
\<close>

definition has_own_property :: "jsobj \<Rightarrow> string \<Rightarrow> error + bool" where
  "has_own_property obj key =
     (if has_key (own obj) ''hasOwnProperty'' \<or> proto obj = NullPrototype
         \<or> proto_owns (proto obj) ''hasOwnProperty''
      then Inl TypeError
      else Inr (has_key (own obj) key))"

section \<open>The filter\<close>

text \<open>
  A measure for the termination of the recursion: the number of objects and arrays
  in a value. The entries of a string are strings again, so the loop is measured by
  this number first and by the number of entries left second.
\<close>

fun sz :: "json \<Rightarrow> nat" where
  "sz (JArr xs) = Suc (sum_list (map sz xs))"
| "sz (JObj kvs) = Suc (sum_list (map (\<lambda>kv. sz (snd kv)) kvs))"
| "sz v = 0"

definition sum_sz :: "props \<Rightarrow> nat" where
  "sum_sz kvs = sum_list (map (\<lambda>kv. sz (snd kv)) kvs)"

fun osz :: "json option \<Rightarrow> nat" where
  "osz None = 0"
| "osz (Some v) = sz v"

text \<open>
  \<^verbatim>\<open>filterProperties\<close> (lines 62-96). The closure variables \<^verbatim>\<open>searchString\<close> and
  \<^verbatim>\<open>maxDepth\<close> are parameters; \<open>maxDepth\<close> is returned updated. \<open>filterEntries\<close> is
  the \<^verbatim>\<open>for\<close> loop over \<^verbatim>\<open>Object.entries(properties)\<close> with the accumulator
  \<^verbatim>\<open>filtered\<close>; a TypeError leaves the whole computation.
\<close>

function filterProperties :: "string \<Rightarrow> json option \<Rightarrow> nat \<Rightarrow> nat \<Rightarrow> error + (props \<times> nat)"
  and filterEntries :: "string \<Rightarrow> props \<Rightarrow> jsobj \<Rightarrow> nat \<Rightarrow> nat \<Rightarrow> error + (jsobj \<times> nat)"
where
  "filterProperties searchString properties currentDepth maxDepth =
     (if \<not> truthy properties then Inr ([], maxDepth)
      else (case object_entries properties of
              Inl e \<Rightarrow> Inl e
            | Inr es \<Rightarrow>
                (case filterEntries searchString es empty_obj currentDepth maxDepth of
                   Inl e \<Rightarrow> Inl e
                 | Inr (filtered, m) \<Rightarrow> Inr (own filtered, m))))"
| "filterEntries searchString [] filtered currentDepth maxDepth = Inr (filtered, maxDepth)"
| "filterEntries searchString ((key, val) # rest) filtered currentDepth maxDepth =
     (case direct_match searchString key val of
        Inl e \<Rightarrow> Inl e
      | Inr include \<Rightarrow>
          let maxDepth1 = (if include \<and> currentDepth > maxDepth then currentDepth else maxDepth) in
          (case get val ''type'' of
             Inl e \<Rightarrow> Inl e
           | Inr ty \<Rightarrow>
              (case
                 (if ty = Some (JStr ''object'') \<and> truthy (field val ''properties'') then
                    (case filterProperties searchString (field val ''properties'')
                            (currentDepth + 1) maxDepth1 of
                       Inl e \<Rightarrow> Inl e
                     | Inr (filteredChild, m) \<Rightarrow>
                         if length filteredChild > 0 then
                           Inr (js_set filtered key
                                  (JObj (AList.update ''properties'' (JObj filteredChild) (entries val))),
                                True, m)
                         else Inr (filtered, include, m))
                  else if ty = Some (JStr ''array'') \<and> truthy (field val ''items'')
                          \<and> (case field val ''items'' of Some it \<Rightarrow> is_object it | None \<Rightarrow> False) then
                    (case field val ''items'' of
                       None \<Rightarrow> Inr (filtered, include, maxDepth1)
                     | Some it \<Rightarrow>
                        (case filterProperties searchString (field it ''properties'')
                                (currentDepth + 1) maxDepth1 of
                           Inl e \<Rightarrow> Inl e
                         | Inr (filteredChildItems, m) \<Rightarrow>
                             if length filteredChildItems > 0 then
                               Inr (js_set filtered key
                                      (JObj (AList.update ''items''
                                         (JObj (AList.update ''properties'' (JObj filteredChildItems)
                                                  (entries it)))
                                         (entries val))),
                                    True, m)
                             else Inr (filtered, include, m)))
                  else Inr (filtered, include, maxDepth1))
               of
                 Inl e \<Rightarrow> Inl e
               | Inr (filtered1, include1, maxDepth2) \<Rightarrow>
                   (case (if include1
                          then (case has_own_property filtered1 key of
                                  Inl e \<Rightarrow> Inl e
                                | Inr b \<Rightarrow> Inr (if b then filtered1 else js_set filtered1 key val))
                          else Inr filtered1) of
                      Inl e \<Rightarrow> Inl e
                    | Inr filtered2 \<Rightarrow>
                        filterEntries searchString rest filtered2 currentDepth maxDepth2))))"
  by pat_completeness auto

lemma sum_sz_Cons: "sum_sz ((k, v) # rest) = sz v + sum_sz rest"
  by (simp add: sum_sz_def)

lemma sum_sz_zip_arr: "length ks = length xs \<Longrightarrow> sum_sz (zip ks xs) = sum_list (map sz xs)"
  by (induction ks xs rule: list_induct2) (simp_all add: sum_sz_def)

lemma sum_sz_zip_str:
  "length ks = length s \<Longrightarrow> sum_sz (zip ks (map (\<lambda>c. JStr [c]) s)) = 0"
  by (induction ks s rule: list_induct2) (simp_all add: sum_sz_def)

lemma sum_sz_entries: "sum_sz (entries p) \<le> sz p"
proof (cases p)
  case (JStr s)
  then show ?thesis by (simp add: sum_sz_zip_str)
next
  case (JArr xs)
  then show ?thesis by (simp add: sum_sz_zip_arr)
next
  case (JObj kvs)
  then show ?thesis by (simp add: sum_sz_def)
qed (simp_all add: sum_sz_def)

lemma sz_map_of: "map_of kvs name = Some x \<Longrightarrow> sz x \<le> sum_sz kvs"
  by (induction kvs) (auto simp: sum_sz_def split: if_splits)

lemma osz_field: "field v name = Some x \<Longrightarrow> sz x < sz v"
proof (cases v)
  case (JObj kvs)
  assume "field v name = Some x"
  with JObj show ?thesis
    by (auto dest: sz_map_of simp: sum_sz_def)
qed (simp_all)

lemma osz_field_le: "osz (field v name) \<le> sz v"
  by (cases "field v name") (auto dest: osz_field)

lemma field_typed: "field v name = Some x \<Longrightarrow> 0 < sz v"
  by (cases v) simp_all

text \<open>
  Every chain of recursive calls is finite: each call of \<open>filterProperties\<close> from the
  loop descends into a value with fewer objects and arrays, and each iteration of
  the loop leaves fewer entries.
\<close>

lemma filter_calls_wellfounded: "All filterProperties_filterEntries_dom"
proof (relation "inv_image (less_than <*lex*> less_than) (\<lambda>x. case x of
            Inl (q, po, d, m) \<Rightarrow> (osz po, Suc (case po of None \<Rightarrow> 0 | Some p \<Rightarrow> length (entries p)))
          | Inr (q, es, f, d, m) \<Rightarrow> (sum_sz es, length es))", goal_cases)
  case 1
  show ?case by (intro wf_inv_image wf_lex_prod wf_less_than)
next
  case (2 searchString properties currentDepth maxDepth es)
  then obtain p where "properties = Some p" "es = entries p"
    by (cases properties rule: object_entries.cases) auto
  then show ?case
    using sum_sz_entries [of p] by auto
next
  case (3 searchString key val rest filtered currentDepth maxDepth inc maxDepth1 ty)
  then have "field val ''type'' = Some (JStr ''object'')"
    by (simp add: get_def split: if_splits)
  then have "0 < sz val" by (rule field_typed)
  then show ?case
    using osz_field_le [of val "''properties''"] 3
    by (cases "field val ''properties''") (auto simp: sum_sz_Cons dest: osz_field)
next
  case (4 searchString key val rest filtered currentDepth maxDepth inc maxDepth1 ty it)
  then show ?case
    using osz_field_le [of it "''properties''"] osz_field [of val "''items''" it]
    by (simp add: sum_sz_Cons)
next
  case (5 searchString key val rest)
  show ?case
    by (cases "sz val") (simp_all add: sum_sz_Cons)
qed

termination filterProperties
  by (rule filter_calls_wellfounded)

declare filterProperties.simps [simp del]

text \<open>\<^verbatim>\<open>filterSchema\<close> (lines 58-101): the recursion from depth 0 with \<^verbatim>\<open>maxDepth = 0\<close>.\<close>

definition filterSchema :: "json option \<Rightarrow> string \<Rightarrow> error + (props \<times> nat)" where
  "filterSchema schema searchString = filterProperties searchString schema 0 0"

text \<open>
  The body of the effect (lines 103-112) of \<^verbatim>\<open>ModelComponent\<close>. \<open>data\<close> is the
  original schema object (its type \<^verbatim>\<open>JSONSchema7\<close> is an object type), given by its
  properties; the deep copy of a JSON value is the value itself. The result is the
  pair handed to \<^verbatim>\<open>setFilteredModel\<close> and \<^verbatim>\<open>setExpandDepth\<close>.
\<close>

definition filterEffect :: "props \<Rightarrow> string \<Rightarrow> error + (props \<times> nat)" where
  "filterEffect data searchValue =
     (let originalData = data in
      if searchValue \<noteq> [] \<and> length searchValue > 1 then
        (case filterSchema (map_of originalData ''properties'') searchValue of
           Inl e \<Rightarrow> Inl e
         | Inr (filteredSchema, maxDepth) \<Rightarrow>
             Inr (AList.update ''properties'' (JObj filteredSchema) originalData, maxDepth))
      else Inr (originalData, 2))"

text \<open>The equations that evaluate the filter on a concrete schema.\<close>

lemmas filter_eval =
  filterSchema_def filterProperties.simps filterEntries.simps direct_match_def get_def
  empty_obj_def js_set_def js_put_def js_lt_def is_index_def nat_of_string_def
  has_own_property_def has_key_def sublist_code prefix_code string_of_nat.simps digit_char_def

lemmas wf_eval = js_lt_def is_index_def nat_of_string_def string_of_nat.simps digit_char_def

section \<open>One iteration of the loop, and the nodes the filter visits\<close>

text \<open>
  The definitions of this section are read off the loop body and are proved equal to
  it (\<open>filterEntries_Cons\<close>): \<open>child_props\<close> is the argument of the recursive call
  (\<^verbatim>\<open>value.properties\<close> in the object branch, \<^verbatim>\<open>value.items.properties\<close> in the array
  branch, nothing otherwise), \<open>with_children\<close> the spread copy stored for a container
  whose children matched, and \<open>place\<close> the writes to \<^verbatim>\<open>filtered\<close> of one iteration.
\<close>

definition child_props :: "json \<Rightarrow> json option" where
  "child_props v =
     (if field v ''type'' = Some (JStr ''object'') \<and> truthy (field v ''properties'')
      then field v ''properties''
      else if field v ''type'' = Some (JStr ''array'') \<and> truthy (field v ''items'')
      then (case field v ''items'' of
              Some it \<Rightarrow> if is_object it then field it ''properties'' else None
            | None \<Rightarrow> None)
      else None)"

definition oentries :: "json option \<Rightarrow> props" where
  "oentries po = (case po of None \<Rightarrow> [] | Some p \<Rightarrow> if truthy (Some p) then entries p else [])"

definition kid_entries :: "json \<Rightarrow> props" where
  "kid_entries v = oentries (child_props v)"

definition with_children :: "json \<Rightarrow> props \<Rightarrow> json" where
  "with_children v fc =
     (if field v ''type'' = Some (JStr ''object'')
      then JObj (AList.update ''properties'' (JObj fc) (entries v))
      else (case field v ''items'' of
              Some it \<Rightarrow>
                JObj (AList.update ''items''
                        (JObj (AList.update ''properties'' (JObj fc) (entries it))) (entries v))
            | None \<Rightarrow> v))"

definition place :: "jsobj \<Rightarrow> string \<Rightarrow> json \<Rightarrow> bool \<Rightarrow> props \<Rightarrow> error + jsobj" where
  "place filtered key val inc fc =
     (let filtered1 = (if fc \<noteq> [] then js_set filtered key (with_children val fc) else filtered)
      in if inc \<or> fc \<noteq> []
         then (case has_own_property filtered1 key of
                 Inl e \<Rightarrow> Inl e
               | Inr b \<Rightarrow> Inr (if b then filtered1 else js_set filtered1 key val))
         else Inr filtered1)"

lemma filterProperties_entries:
  "filterProperties q po d m =
     (case filterEntries q (oentries po) empty_obj d m of
        Inl e \<Rightarrow> Inl e
      | Inr (f, m') \<Rightarrow> Inr (own f, m'))"
  by (cases po rule: object_entries.cases)
     (simp_all add: filterProperties.simps oentries_def empty_obj_def)

lemma filterProperties_None [simp]: "filterProperties q None d m = Inr ([], m)"
  by (simp add: filterProperties.simps)

lemma child_props_object:
  "field v ''type'' = Some (JStr ''object'') \<Longrightarrow> truthy (field v ''properties'') \<Longrightarrow>
   child_props v = field v ''properties''"
  by (simp add: child_props_def)

lemma oentries_truthy: "truthy po \<Longrightarrow> oentries po = (case po of Some p \<Rightarrow> entries p | None \<Rightarrow> [])"
  by (cases po) (simp_all add: oentries_def)

lemma filterEntries_Cons:
  "filterEntries q ((k, v) # rest) f d m =
     (case direct_match q k v of
        Inl e \<Rightarrow> Inl e
      | Inr inc \<Rightarrow>
          if v = JNull then Inl TypeError
          else (case filterEntries q (kid_entries v) empty_obj (Suc d)
                       (if inc \<and> m < d then d else m) of
                  Inl e \<Rightarrow> Inl e
                | Inr (fc, m2) \<Rightarrow>
                    (case place f k v inc (own fc) of
                       Inl e \<Rightarrow> Inl e
                     | Inr f2 \<Rightarrow> filterEntries q rest f2 d m2)))"
proof (cases "direct_match q k v")
  case (Inl e)
  then show ?thesis by simp
next
  case (Inr inc)
  show ?thesis
  proof (cases "v = JNull")
    case True
    with Inr show ?thesis by (simp add: get_def)
  next
    case nonnull: False
    let ?m1 = "if inc \<and> m < d then d else m"
    consider (obj) "field v ''type'' = Some (JStr ''object'')" "truthy (field v ''properties'')"
      | (arr) it where "field v ''type'' = Some (JStr ''array'')" "field v ''items'' = Some it"
          "truthy (Some it)" "is_object it"
      | (leaf)
          "\<not> (field v ''type'' = Some (JStr ''object'') \<and> truthy (field v ''properties''))"
          "\<not> (field v ''type'' = Some (JStr ''array'') \<and> truthy (field v ''items'')
              \<and> (case field v ''items'' of Some it \<Rightarrow> is_object it | None \<Rightarrow> False))"
      by (cases "field v ''items''") auto
    then show ?thesis
    proof cases
      case obj
      have kid: "kid_entries v = oentries (field v ''properties'')"
        using obj by (simp add: kid_entries_def child_props_def)
      show ?thesis
      proof (cases "filterEntries q (oentries (field v ''properties'')) empty_obj (Suc d) ?m1")
        case (Inl e)
        then show ?thesis
          using Inr nonnull obj
          by (simp add: get_def kid filterProperties_entries [of q "field v ''properties''"])
      next
        case run: (Inr r)
        obtain fc m2 where r: "r = (fc, m2)" by (cases r)
        show ?thesis
          using Inr nonnull obj run r
          by (cases "own fc = []")
             (simp_all add: get_def kid filterProperties_entries [of q "field v ''properties''"]
                place_def with_children_def Let_def cong: sum.case_cong if_cong)
      qed
    next
      case arr
      have kid: "kid_entries v = oentries (field it ''properties'')"
        using arr by (simp add: kid_entries_def child_props_def)
      show ?thesis
      proof (cases "filterEntries q (oentries (field it ''properties'')) empty_obj (Suc d) ?m1")
        case (Inl e)
        then show ?thesis
          using Inr nonnull arr
          by (simp add: get_def kid filterProperties_entries [of q "field it ''properties''"])
      next
        case run: (Inr r)
        obtain fc m2 where r: "r = (fc, m2)" by (cases r)
        show ?thesis
          using Inr nonnull arr run r
          by (cases "own fc = []")
             (simp_all add: get_def kid filterProperties_entries [of q "field it ''properties''"]
                place_def with_children_def Let_def cong: sum.case_cong if_cong)
      qed
    next
      case leaf
      have kid: "kid_entries v = []"
        using leaf by (auto simp: kid_entries_def oentries_def child_props_def split: option.splits)
      have c1: "(field v ''type'' = Some (JStr ''object'') \<and> truthy (field v ''properties'')) = False"
        using leaf(1) by simp
      have c2: "(field v ''type'' = Some (JStr ''array'') \<and> truthy (field v ''items'')
              \<and> (case field v ''items'' of Some it \<Rightarrow> is_object it | None \<Rightarrow> False)) = False"
        using leaf(2) by simp
      show ?thesis
        using Inr nonnull
        by (simp add: get_def kid place_def empty_obj_def Let_def c1 c2 del: conj_assoc de_Morgan_conj)
    qed
  qed
qed


declare filterEntries.simps(2) [simp del]

lemma sum_sz_kid_entries: "sum_sz (kid_entries v) < sz v \<or> kid_entries v = []"
proof (cases "child_props v")
  case None
  then show ?thesis by (simp add: kid_entries_def oentries_def)
next
  case (Some p)
  have "sz p < sz v"
  proof (cases "field v ''type'' = Some (JStr ''object'') \<and> truthy (field v ''properties'')")
    case True
    with Some show ?thesis by (auto simp: child_props_def dest: osz_field)
  next
    case False
    with Some obtain it where it: "field v ''items'' = Some it" "field it ''properties'' = Some p"
      by (auto simp: child_props_def split: if_splits option.splits)
    then have "sz p < sz it" "sz it < sz v" by (auto dest: osz_field)
    then show ?thesis by simp
  qed
  moreover have "sum_sz (oentries (Some p)) \<le> sz p"
    using sum_sz_entries [of p] by (simp add: oentries_def sum_sz_def)
  ultimately show ?thesis using Some by (simp add: kid_entries_def)
qed

function nodes :: "nat \<Rightarrow> props \<Rightarrow> (nat \<times> string \<times> json) list" where
  "nodes d [] = []"
| "nodes d ((k, v) # rest) = (d, k, v) # nodes (Suc d) (kid_entries v) @ nodes d rest"
  by pat_completeness auto
termination nodes
proof (relation "inv_image (less_than <*lex*> less_than) (\<lambda>(d, es). (sum_sz es, length es))", goal_cases)
  case 1
  show ?case by (intro wf_inv_image wf_lex_prod wf_less_than)
next
  case (2 d k v rest)
  show ?case using sum_sz_kid_entries [of v] by (auto simp: sum_sz_Cons sum_sz_def)
next
  case (3 d k v rest)
  show ?case by (cases "sz v") (simp_all add: sum_sz_Cons)
qed

definition direct :: "string \<Rightarrow> string \<Rightarrow> json \<Rightarrow> bool" where
  "direct q k v = (direct_match q k v = Inr True)"

lemmas tree_eval = kid_entries_def child_props_def oentries_def direct_def

definition max_list :: "nat list \<Rightarrow> nat" where
  "max_list ds = foldr max ds 0"

definition direct_depths :: "string \<Rightarrow> nat \<Rightarrow> props \<Rightarrow> nat list" where
  "direct_depths q d es = map fst (filter (\<lambda>(d', k, v). direct q k v) (nodes d es))"

lemma max_list_append: "max_list (xs @ ys) = max (max_list xs) (max_list ys)"
  by (induction xs) (simp_all add: max_list_def)

lemma max_list_Nil [simp]: "max_list [] = 0"
  by (simp add: max_list_def)

lemma max_list_Cons [simp]: "max_list (x # xs) = max x (max_list xs)"
  by (simp add: max_list_def)

lemma direct_depths_Nil [simp]: "direct_depths q d [] = []"
  by (simp add: direct_depths_def)

lemma max_direct_depths_Cons:
  "max_list (direct_depths q d ((k, v) # rest)) =
     max (if direct q k v then d else 0)
         (max (max_list (direct_depths q (Suc d) (kid_entries v))) (max_list (direct_depths q d rest)))"
  by (simp add: direct_depths_def max_list_append)

lemma filterEntries_maxDepth_any:
  "filterEntries q es f d m = Inr (f', m') \<Longrightarrow>
   filterEntries q es f d n = Inr (f', max n (max_list (direct_depths q d es)))"
proof (induction d es arbitrary: f m f' m' n rule: nodes.induct)
  case (1 d)
  then show ?case by simp
next
  case (2 d k v rest)
  from "2.prems" obtain inc where inc: "direct_match q k v = Inr inc"
    by (cases "direct_match q k v") (simp_all add: filterEntries_Cons)
  from "2.prems" inc have nonnull: "v \<noteq> JNull"
    by (auto simp: filterEntries_Cons split: if_splits)
  let ?m1 = "if inc \<and> m < d then d else m"
  let ?n1 = "if inc \<and> n < d then d else n"
  from "2.prems" inc nonnull obtain fc m2 where
    kids: "filterEntries q (kid_entries v) empty_obj (Suc d) ?m1 = Inr (fc, m2)"
    by (cases "filterEntries q (kid_entries v) empty_obj (Suc d) ?m1")
       (auto simp: filterEntries_Cons)
  from "2.prems" inc nonnull kids obtain f2 where
    pl: "place f k v inc (own fc) = Inr f2"
    by (cases "place f k v inc (own fc)") (auto simp: filterEntries_Cons)
  from "2.prems" inc nonnull kids pl have
    rest: "filterEntries q rest f2 d m2 = Inr (f', m')"
    by (simp add: filterEntries_Cons)
  have incd: "inc = direct q k v"
    using inc by (auto simp: direct_def)
  let ?A = "max_list (direct_depths q (Suc d) (kid_entries v))"
  let ?R = "max_list (direct_depths q d rest)"
  note k' = "2.IH"(1) [OF kids, of ?n1]
  note r' = "2.IH"(2) [OF rest, of "max ?n1 ?A"]
  have arith: "max (max ?n1 ?A) ?R = max n (max (if direct q k v then d else 0) (max ?A ?R))"
    unfolding incd by (simp add: max_def)
  have "filterEntries q ((k, v) # rest) f d n = Inr (f', max (max ?n1 ?A) ?R)"
    using inc nonnull k' pl r' by (simp add: filterEntries_Cons)
  then show ?case
    by (simp only: arith max_direct_depths_Cons)
qed


section \<open>The driver\<close>

text \<open>
  C3. For a search string of length at most 1 (empty or one character) the effect
  does not filter: the model it hands to the renderer is the original schema,
  unchanged, and the expansion depth is set to the default 2.
\<close>

theorem short_query_bypasses_filter:
  assumes "length searchValue \<le> 1"
  shows "filterEffect data searchValue = Inr (data, 2)"
  using assms by (simp add: filterEffect_def)

theorem short_query_bypasses_filter_witness:
  "length ''x'' \<le> 1 \<and>
   filterEffect [(''type'', JStr ''object''),
                 (''properties'', JObj [(''id'', JObj [(''type'', JStr ''string'')])])] ''x''
     = Inr ([(''type'', JStr ''object''),
             (''properties'', JObj [(''id'', JObj [(''type'', JStr ''string'')])])], 2)"
  using short_query_bypasses_filter [of "''x''"] by simp

section \<open>The depth computation example\<close>

text \<open>
  C4. For the schema \<^verbatim>\<open>{a: {description: "x"}, b: {type: "object", properties: {c:
  {description: "x"}}}}\<close> and the query \<^verbatim>\<open>"x"\<close>, \<^verbatim>\<open>filterSchema\<close> keeps \<open>a\<close>, keeps
  \<open>b\<close> with its child \<open>c\<close>, and computes \<^verbatim>\<open>maxDepth = 1\<close>.
\<close>

theorem depth_example:
  "filterSchema
     (Some (JObj [(''a'', JObj [(''description'', JStr ''x'')]),
                  (''b'', JObj [(''type'', JStr ''object''),
                               (''properties'', JObj [(''c'', JObj [(''description'', JStr ''x'')])])])]))
     ''x''
   = Inr ([(''a'', JObj [(''description'', JStr ''x'')]),
           (''b'', JObj [(''type'', JStr ''object''),
                        (''properties'', JObj [(''c'', JObj [(''description'', JStr ''x'')])])])],
          1)"
  by (simp add: filter_eval)

lemma filterEntries_ConsE:
  assumes "filterEntries q ((k, v) # rest) f d m = Inr (f', m')"
  obtains inc fc m2 f2 where
    "direct_match q k v = Inr inc" "v \<noteq> JNull"
    "filterEntries q (kid_entries v) empty_obj (Suc d) (if inc \<and> m < d then d else m) = Inr (fc, m2)"
    "place f k v inc (own fc) = Inr f2"
    "filterEntries q rest f2 d m2 = Inr (f', m')"
proof -
  from assms obtain inc where inc: "direct_match q k v = Inr inc"
    by (cases "direct_match q k v") (simp_all add: filterEntries_Cons)
  from assms inc have nonnull: "v \<noteq> JNull"
    by (auto simp: filterEntries_Cons split: if_splits)
  let ?m1 = "if inc \<and> m < d then d else m"
  from assms inc nonnull obtain fc m2 where
    kids: "filterEntries q (kid_entries v) empty_obj (Suc d) ?m1 = Inr (fc, m2)"
    by (cases "filterEntries q (kid_entries v) empty_obj (Suc d) ?m1")
       (auto simp: filterEntries_Cons)
  from assms inc nonnull kids obtain f2 where
    pl: "place f k v inc (own fc) = Inr f2"
    by (cases "place f k v inc (own fc)") (auto simp: filterEntries_Cons)
  from assms inc nonnull kids pl have
    rest: "filterEntries q rest f2 d m2 = Inr (f', m')"
    by (simp add: filterEntries_Cons)
  from inc nonnull kids pl rest show thesis by (rule that)
qed

lemma filterEntries_ConsI:
  assumes "direct_match q k v = Inr inc" "v \<noteq> JNull"
    "filterEntries q (kid_entries v) empty_obj (Suc d) (if inc \<and> m < d then d else m) = Inr (fc, m2)"
    "place f k v inc (own fc) = Inr f2"
    "filterEntries q rest f2 d m2 = r"
  shows "filterEntries q ((k, v) # rest) f d m = r"
  using assms by (simp add: filterEntries_Cons)

lemma le_max_list: "x \<in> set xs \<Longrightarrow> x \<le> max_list xs"
  by (induction xs) auto

lemma max_list_in: "max_list xs \<in> set xs \<or> max_list xs = 0"
  by (induction xs) (auto simp: max_def)

lemma filterSchema_entries:
  "filterSchema (Some (JObj P)) q =
     (case filterEntries q P empty_obj 0 0 of Inl e \<Rightarrow> Inl e | Inr (f, m) \<Rightarrow> Inr (own f, m))"
  by (simp add: filterSchema_def filterProperties_entries oentries_def)

lemma filterSchema_ReturnsE:
  assumes "filterSchema (Some (JObj P)) q = Inr (out, md)"
  obtains f where "filterEntries q P empty_obj 0 0 = Inr (f, md)" "own f = out"
  using assms by (auto simp: filterSchema_entries split: sum.splits)

section \<open>The depth returned\<close>

text \<open>
  A direct match in the words of the specification: the name contains the search
  string, or the description does (a description that is an array contains its
  elements).
\<close>

definition name_or_description_contains :: "string \<Rightarrow> string \<Rightarrow> json \<Rightarrow> bool" where
  "name_or_description_contains q k v =
     (sublist q k
      \<or> (case field v ''description'' of
            Some (JStr s) \<Rightarrow> sublist q s
          | Some (JArr xs) \<Rightarrow> JStr q \<in> set xs
          | _ \<Rightarrow> False))"

lemma direct_match_contains:
  assumes "direct_match q k v = Inr b"
  shows "b = name_or_description_contains q k v"
proof (cases "sublist q k")
  case True
  with assms show ?thesis by (simp add: direct_match_def name_or_description_contains_def)
next
  case False
  then have q: "q \<noteq> []" by auto
  from assms False have nn: "v \<noteq> JNull"
    by (auto simp: direct_match_def get_def)
  show ?thesis
  proof (cases "field v ''description''")
    case None
    with assms False nn show ?thesis
      by (simp add: direct_match_def get_def name_or_description_contains_def)
  next
    case (Some dv)
    with assms False nn q show ?thesis
      by (cases dv) (auto simp: direct_match_def get_def name_or_description_contains_def split: if_splits)
  qed
qed

lemma direct_contains:
  "direct_match q k v = Inr b \<Longrightarrow> direct q k v = name_or_description_contains q k v"
  by (auto simp: direct_def dest: direct_match_contains)

lemma visited_match_defined:
  assumes "filterEntries q es f d m = Inr (f', m')" "(d', k, v) \<in> set (nodes d es)"
  shows "direct q k v = name_or_description_contains q k v"
  using assms
proof (induction d es arbitrary: f m f' m' rule: nodes.induct)
  case (1 d)
  then show ?case by simp
next
  case (2 d k0 v0 rest)
  from "2.prems"(1) obtain inc fc m2 f2 where
    step: "direct_match q k0 v0 = Inr inc" "v0 \<noteq> JNull"
      "filterEntries q (kid_entries v0) empty_obj (Suc d) (if inc \<and> m < d then d else m) = Inr (fc, m2)"
      "place f k0 v0 inc (own fc) = Inr f2"
      "filterEntries q rest f2 d m2 = Inr (f', m')"
    by (rule filterEntries_ConsE)
  from "2.prems"(2) consider "d' = d" "k = k0" "v = v0"
    | "(d', k, v) \<in> set (nodes (Suc d) (kid_entries v0))"
    | "(d', k, v) \<in> set (nodes d rest)" by auto
  then show ?case
  proof cases
    case 1
    with step(1) show ?thesis by (simp add: direct_contains)
  next
    case 2
    from "2.IH"(1) [OF step(3) 2] show ?thesis .
  next
    case 3
    from "2.IH"(2) [OF step(5) 3] show ?thesis .
  qed
qed


text \<open>
  C2, as amended. Whenever \<^verbatim>\<open>filterSchema\<close> returns, the \<^verbatim>\<open>maxDepth\<close> it returns is the
  greatest depth (top level = 0) of a visited node whose name or description contains
  the search string, and 0 when there is none: no such node lies deeper, and a
  non-zero \<^verbatim>\<open>maxDepth\<close> is the depth of one of them. The visited nodes are the
  top-level properties and, below a visited node, the entries of its \<^verbatim>\<open>properties\<close>
  when its \<^verbatim>\<open>type\<close> is \<^verbatim>\<open>"object"\<close>, or of \<^verbatim>\<open>items.properties\<close> when its \<^verbatim>\<open>type\<close> is
  \<^verbatim>\<open>"array"\<close>. A property kept only for its descendants does not count.
\<close>

theorem maxDepth_is_greatest_direct_depth:
  assumes "filterSchema (Some (JObj P)) q = Inr (out, md)"
  shows "(\<forall>(d, k, v) \<in> set (nodes 0 P). name_or_description_contains q k v \<longrightarrow> d \<le> md)
     \<and> (md = 0 \<or> (\<exists>(d, k, v) \<in> set (nodes 0 P). name_or_description_contains q k v \<and> d = md))"
proof -
  from assms obtain f where run: "filterEntries q P empty_obj 0 0 = Inr (f, md)"
    by (rule filterSchema_ReturnsE)
  note same = visited_match_defined [OF run]
  from filterEntries_maxDepth_any [OF run, of 0] run
  have md: "md = max_list (direct_depths q 0 P)" by simp
  have upper: "\<forall>(d, k, v) \<in> set (nodes 0 P). name_or_description_contains q k v \<longrightarrow> d \<le> md"
  proof (clarify)
    fix d k v assume n: "(d, k, v) \<in> set (nodes 0 P)" and "name_or_description_contains q k v"
    with same [OF n] have "direct q k v" by simp
    with n have "d \<in> set (direct_depths q 0 P)"
      by (force simp: direct_depths_def)
    then show "d \<le> md" unfolding md by (rule le_max_list)
  qed
  have attained: "md = 0 \<or> (\<exists>(d, k, v) \<in> set (nodes 0 P). name_or_description_contains q k v \<and> d = md)"
  proof (cases "md = 0")
    case True
    then show ?thesis by simp
  next
    case False
    with max_list_in [of "direct_depths q 0 P"] have "md \<in> set (direct_depths q 0 P)"
      by (simp add: md)
    then obtain k v where n: "(md, k, v) \<in> set (nodes 0 P)" and "direct q k v"
      by (auto simp: direct_depths_def)
    with same [OF n] have "name_or_description_contains q k v" by simp
    with n show ?thesis by blast
  qed
  from upper attained show ?thesis by blast
qed


definition depth_witness :: props where
  "depth_witness =
     [(''a'', JObj [(''description'', JStr ''an xx here'')]),
      (''b'', JObj [(''type'', JStr ''object''),
         (''properties'', JObj
            [(''cxx'', JObj [(''type'', JStr ''object''),
                (''properties'', JObj [(''e'', JObj [(''description'', JStr ''no'')])])]),
             (''g'', JObj [])])])]"

theorem maxDepth_is_greatest_direct_depth_witness:
  "filterSchema (Some (JObj depth_witness)) ''xx''
     = Inr ([(''a'', JObj [(''description'', JStr ''an xx here'')]),
             (''b'', JObj [(''type'', JStr ''object''),
                (''properties'', JObj
                   [(''cxx'', JObj [(''type'', JStr ''object''),
                       (''properties'', JObj [(''e'', JObj [(''description'', JStr ''no'')])])])])])], 1)
   \<and> (1, ''cxx'', JObj [(''type'', JStr ''object''),
                (''properties'', JObj [(''e'', JObj [(''description'', JStr ''no'')])])])
        \<in> set (nodes 0 depth_witness)
   \<and> name_or_description_contains ''xx'' ''cxx'' (JObj [(''type'', JStr ''object''),
                (''properties'', JObj [(''e'', JObj [(''description'', JStr ''no'')])])])
   \<and> (2, ''e'', JObj [(''description'', JStr ''no'')]) \<in> set (nodes 0 depth_witness)
   \<and> \<not> name_or_description_contains ''xx'' ''e'' (JObj [(''description'', JStr ''no'')])
   \<and> (1::nat) \<le> 1"
  (is "?run \<and> ?n1 \<and> ?c1 \<and> ?n2 \<and> ?c2 \<and> _")
proof -
  have h: ?run
    by (simp add: depth_witness_def filter_eval)
  have n1: ?n1 by (simp add: depth_witness_def tree_eval)
  have c1: ?c1 by (simp add: name_or_description_contains_def sublist_code prefix_code)
  have n2: ?n2 by (simp add: depth_witness_def tree_eval)
  have c2: ?c2 by (simp add: name_or_description_contains_def sublist_code prefix_code)
  note t = maxDepth_is_greatest_direct_depth [OF h]
  from bspec [OF t [THEN conjunct1] n1, unfolded prod.case] c1 have "(1::nat) \<le> 1" by (rule mp)
  with h n1 c1 n2 c2 show ?thesis by (intro conjI)
qed


text \<open>
  C2 as stated fails: a node counts only if the recursion visits it. Below, \<open>b\<close>
  matches by its description and \<open>dxx\<close> by its name, both at depth 1, under
  containers whose \<^verbatim>\<open>type\<close> is not the string \<^verbatim>\<open>"object"\<close>; the filter returns
  \<^verbatim>\<open>maxDepth = 0\<close>.
\<close>

theorem match_below_untyped_container_not_counted:
  "field (JObj [(''type'', JArr [JStr ''object'', JStr ''null'']),
                (''properties'', JObj [(''b'', JObj [(''description'', JStr ''xx'')])])]) ''properties''
     = Some (JObj [(''b'', JObj [(''description'', JStr ''xx'')])])
   \<and> name_or_description_contains ''xx'' ''b'' (JObj [(''description'', JStr ''xx'')])
   \<and> filterSchema
        (Some (JObj [(''axx'', JObj [(''type'', JArr [JStr ''object'', JStr ''null'']),
                (''properties'', JObj [(''b'', JObj [(''description'', JStr ''xx'')])])]),
                     (''c'', JObj [(''properties'', JObj [(''dxx'', JObj [])])])]))
        ''xx''
       = Inr ([(''axx'', JObj [(''type'', JArr [JStr ''object'', JStr ''null'']),
                (''properties'', JObj [(''b'', JObj [(''description'', JStr ''xx'')])])])], 0)"
  by (simp add: filter_eval name_or_description_contains_def)

section \<open>What one iteration writes\<close>

lemma has_key_iff: "has_key kvs k \<longleftrightarrow> k \<in> fst ` set kvs"
  by (simp add: has_key_def map_of_eq_None_iff)

lemma update_absent: "\<not> has_key kvs k \<Longrightarrow> AList.update k v kvs = kvs @ [(k, v)]"
  by (induction kvs) (auto simp: has_key_iff)

lemma has_key_update: "has_key (AList.update k v kvs) k' \<longleftrightarrow> k' = k \<or> has_key kvs k'"
  by (auto simp: has_key_iff dom_update)

lemma js_create_append:
  "\<forall>k' \<in> fst ` set kvs. js_lt k' k \<Longrightarrow> js_create kvs k v = kvs @ [(k, v)]"
  by (induction kvs) auto

lemma keys_js_create: "fst ` set (js_create kvs k v) = insert k (fst ` set kvs)"
proof (induction kvs)
  case Nil
  show ?case by simp
next
  case (Cons a kvs)
  obtain k' v' where a: "a = (k', v')" by (cases a)
  show ?case
  proof (cases "js_lt k' k")
    case True
    with Cons a show ?thesis by (simp add: insert_commute)
  next
    case False
    with a show ?thesis by simp
  qed
qed

lemma js_put_absent:
  "\<not> has_key kvs k \<Longrightarrow> \<forall>k' \<in> fst ` set kvs. js_lt k' k \<Longrightarrow> js_put kvs k v = kvs @ [(k, v)]"
  by (simp add: js_put_def js_create_append)

lemma has_key_js_put: "has_key (js_put kvs k v) k' \<longleftrightarrow> k' = k \<or> has_key kvs k'"
  by (auto simp: js_put_def has_key_update) (auto simp: has_key_iff keys_js_create)

lemma js_set_own_proto:
  "own (js_set f k x) = js_put (own f) k x \<and> proto (js_set f k x) = proto f
   \<or> own (js_set f k x) = own f \<and> k = ''__proto__''"
  by (simp add: js_set_def split: json.splits)

lemma has_own_property_Inr:
  "has_own_property f k = Inr b \<Longrightarrow> b = has_key (own f) k"
  by (simp add: has_own_property_def split: if_splits)

text \<open>
  The writes of one iteration, for a key that \<^verbatim>\<open>filtered\<close> does not own yet and that
  is enumerated after the keys it owns: nothing is added, or the original value is
  added, or the copy with the filtered children is.
\<close>

lemma place_cases:
  assumes "place f k v inc fc = Inr f2" "\<not> has_key (own f) k"
    and "\<forall>k' \<in> fst ` set (own f). js_lt k' k"
  obtains (skip) "own f2 = own f" "proto f2 = proto f \<or> k = ''__proto__''"
        | (orig) "own f2 = own f @ [(k, v)]" "inc \<or> fc \<noteq> []"
        | (copy) "fc \<noteq> []" "own f2 = own f @ [(k, with_children v fc)]" "proto f2 = proto f"
proof (cases "fc = []")
  case True
  show thesis
  proof (cases inc)
    case False
    with True assms have "f2 = f" by (simp add: place_def)
    then show thesis by (intro skip) simp_all
  next
    case inc: True
    with True assms obtain b where b: "has_own_property f k = Inr b" "f2 = (if b then f else js_set f k v)"
      by (cases "has_own_property f k") (auto simp: place_def)
    with assms(2) have f2: "f2 = js_set f k v" by (auto dest: has_own_property_Inr)
    from js_set_own_proto [of f k v] show thesis
    proof
      assume "own (js_set f k v) = js_put (own f) k v \<and> proto (js_set f k v) = proto f"
      with f2 assms(2,3) inc show thesis by (intro orig) (simp_all add: js_put_absent)
    next
      assume "own (js_set f k v) = own f \<and> k = ''__proto__''"
      with f2 show thesis by (intro skip) auto
    qed
  qed
next
  case nonempty: False
  let ?wc = "with_children v fc"
  let ?f1 = "js_set f k ?wc"
  from nonempty assms obtain b where b: "has_own_property ?f1 k = Inr b"
      "f2 = (if b then ?f1 else js_set ?f1 k v)"
    by (cases "has_own_property ?f1 k") (auto simp: place_def Let_def)
  from js_set_own_proto [of f k ?wc] show thesis
  proof
    assume a: "own ?f1 = js_put (own f) k ?wc \<and> proto ?f1 = proto f"
    then have "has_key (own ?f1) k" by (simp add: has_key_js_put)
    with b have "f2 = ?f1" by (auto dest: has_own_property_Inr)
    with a assms(2,3) nonempty show thesis by (intro copy) (simp_all add: js_put_absent)
  next
    assume a: "own ?f1 = own f \<and> k = ''__proto__''"
    then have a1: "own ?f1 = own f" and kp: "k = ''__proto__''" by blast+
    from a1 assms(2) b have f2: "f2 = js_set ?f1 k v" by (auto dest: has_own_property_Inr)
    from js_set_own_proto [of ?f1 k v] show thesis
    proof
      assume "own (js_set ?f1 k v) = js_put (own ?f1) k v \<and> proto (js_set ?f1 k v) = proto ?f1"
      then have "own (js_set ?f1 k v) = js_put (own f) k v" unfolding a1 by blast
      then have "own f2 = js_put (own f) k v" unfolding f2 .
      with assms(2,3) have "own f2 = own f @ [(k, v)]" by (simp add: js_put_absent)
      with nonempty show thesis by (intro orig) simp_all
    next
      assume "own (js_set ?f1 k v) = own ?f1 \<and> k = ''__proto__''"
      then have "own (js_set ?f1 k v) = own f" unfolding a1 by blast
      then have "own f2 = own f" unfolding f2 .
      with kp show thesis by (intro skip) simp_all
    qed
  qed
qed

section \<open>Objects as association lists\<close>

text \<open>
  An association list stands for an object only if its keys are distinct and listed
  in enumeration order, at every level. An array and a string have fewer than
  \<open>2\<^sup>3\<^sup>2 - 1\<close> elements, so their index keys are array indices in ascending order.
\<close>

lemma of_char_digit: "n < 10 \<Longrightarrow> (of_char (digit_char n) :: nat) = 48 + n"
proof -
  assume "n < 10"
  then consider "n = 0" | "n = 1" | "n = 2" | "n = 3" | "n = 4" | "n = 5" | "n = 6" | "n = 7"
    | "n = 8" | "n = 9" by atomize_elim arith
  then show ?thesis by cases (simp_all add: digit_char_def)
qed

lemma nat_of_string_of_nat: "nat_of_string (string_of_nat n) = n"
proof (induction n rule: string_of_nat.induct)
  case (1 n)
  show ?case
  proof (cases "n < 10")
    case True
    then show ?thesis
      by (subst string_of_nat.simps) (simp add: nat_of_string_def of_char_digit)
  next
    case False
    have "n mod 10 < 10" by simp
    then have "(of_char (digit_char (n mod 10)) :: nat) = 48 + n mod 10" by (rule of_char_digit)
    with False "1.IH" show ?thesis
      by (subst string_of_nat.simps) (simp add: nat_of_string_def)
  qed
qed

lemma inj_string_of_nat: "inj string_of_nat"
  by (rule inj_on_inverseI [where g = nat_of_string]) (rule nat_of_string_of_nat)

lemma js_lt_index:
  "i < j \<Longrightarrow> j < 4294967295 \<Longrightarrow> js_lt (string_of_nat i) (string_of_nat j)"
  by (simp add: js_lt_def is_index_def nat_of_string_of_nat)

fun well_formed :: "json \<Rightarrow> bool" where
  "well_formed (JObj kvs) =
     (distinct (map fst kvs) \<and> sorted_wrt js_lt (map fst kvs)
      \<and> list_all (\<lambda>kv. well_formed (snd kv)) kvs)"
| "well_formed (JArr xs) = (length xs < 4294967295 \<and> list_all well_formed xs)"
| "well_formed (JStr s) = (length s < 4294967295)"
| "well_formed v = True"

definition wf_props :: "props \<Rightarrow> bool" where
  "wf_props es = well_formed (JObj es)"

lemma wf_props_Cons:
  "wf_props ((k, v) # rest) \<longleftrightarrow>
     k \<notin> fst ` set rest \<and> (\<forall>k' \<in> fst ` set rest. js_lt k k') \<and> well_formed v \<and> wf_props rest"
  by (auto simp: wf_props_def)

lemma wf_props_Nil [simp]: "wf_props []"
  by (simp add: wf_props_def)

lemma map_fst_zip_index: "length ks = length xs \<Longrightarrow> map fst (zip ks xs) = ks"
  by (induction ks xs rule: list_induct2) simp_all

lemma distinct_index_keys: "distinct (map string_of_nat [0..<n])"
  by (simp add: distinct_map inj_string_of_nat [THEN inj_on_subset])

lemma sorted_index_keys: "n < 4294967295 \<Longrightarrow> sorted_wrt js_lt (map string_of_nat [0..<n])"
  by (simp add: sorted_wrt_map sorted_wrt_iff_nth_less js_lt_index)

lemma wf_props_entries: "well_formed p \<Longrightarrow> wf_props (entries p)"
proof (cases p)
  case (JArr xs)
  assume "well_formed p"
  with JArr have xs: "length xs < 4294967295" "list_all well_formed xs" by simp_all
  then have "list_all (\<lambda>kv. well_formed (snd kv)) (zip (map string_of_nat [0..<length xs]) xs)"
    by (auto simp: list_all_iff dest: set_zip_rightD)
  with JArr xs(1) show ?thesis
    by (simp add: wf_props_def map_fst_zip_index distinct_index_keys sorted_index_keys)
next
  case (JStr s)
  assume "well_formed p"
  with JStr have s: "length s < 4294967295" by simp
  have "list_all (\<lambda>kv. well_formed (snd kv)) (zip (map string_of_nat [0..<length s]) (map (\<lambda>c. JStr [c]) s))"
    by (auto simp: list_all_iff dest!: set_zip_rightD)
  with JStr s show ?thesis
    by (simp add: wf_props_def map_fst_zip_index distinct_index_keys sorted_index_keys)
qed (simp_all add: wf_props_def)

lemma well_formed_field: "well_formed v \<Longrightarrow> field v name = Some x \<Longrightarrow> well_formed x"
  by (cases v) (auto simp: list_all_iff dest!: map_of_SomeD)

lemma wf_props_kid_entries: "well_formed v \<Longrightarrow> wf_props (kid_entries v)"
proof -
  assume v: "well_formed v"
  show ?thesis
  proof (cases "child_props v")
    case None
    then show ?thesis by (simp add: kid_entries_def oentries_def)
  next
    case (Some p)
    then have "well_formed p"
      using v by (auto simp: child_props_def split: if_splits option.splits dest: well_formed_field)
    then show ?thesis
      using Some by (simp add: kid_entries_def oentries_def wf_props_entries)
  qed
qed

text \<open>
  The invariant of the loop: what \<^verbatim>\<open>filtered\<close> owns are keys already visited, so the
  keys still to come are new to it and are enumerated after its own.
\<close>

definition ahead :: "jsobj \<Rightarrow> props \<Rightarrow> bool" where
  "ahead f es = (\<forall>k \<in> fst ` set es. \<not> has_key (own f) k \<and> (\<forall>k' \<in> fst ` set (own f). js_lt k' k))"

lemma ahead_empty [simp]: "ahead empty_obj es"
  by (simp add: ahead_def empty_obj_def has_key_def)

lemma ahead_Cons:
  "ahead f ((k, v) # rest) \<Longrightarrow>
     \<not> has_key (own f) k \<and> (\<forall>k' \<in> fst ` set (own f). js_lt k' k) \<and> ahead f rest"
  by (simp add: ahead_def)

lemma ahead_same: "ahead f es \<Longrightarrow> own f2 = own f \<Longrightarrow> ahead f2 es"
  by (simp add: ahead_def)

lemma ahead_step:
  "ahead f ((k, v) # rest) \<Longrightarrow> wf_props ((k, v) # rest) \<Longrightarrow> own f2 = own f @ [(k, x)] \<Longrightarrow>
   ahead f2 rest"
  by (auto simp: ahead_def wf_props_Cons has_key_iff)

section \<open>The shape of the output\<close>

text \<open>
  \<open>kept es new\<close>: \<open>new\<close> is \<open>es\<close> pruned, that is, some entries are left out, the
  others stay in their order, each with its original value or, when it is a
  container with kept children, with the copy that holds just these children.
\<close>

inductive kept :: "props \<Rightarrow> props \<Rightarrow> bool" where
  kept_Nil: "kept [] []"
| kept_drop: "kept es new \<Longrightarrow> kept ((k, v) # es) new"
| kept_orig: "kept es new \<Longrightarrow> kept ((k, v) # es) ((k, v) # new)"
| kept_copy: "kept es new \<Longrightarrow> kept (kid_entries v) fc \<Longrightarrow> fc \<noteq> [] \<Longrightarrow>
     kept ((k, v) # es) ((k, with_children v fc) # new)"


lemma filterEntries_kept:
  assumes "filterEntries q es f d m = Inr (f', m')" "wf_props es" "ahead f es"
  shows "\<exists>new. own f' = own f @ new \<and> kept es new"
  using assms
proof (induction d es arbitrary: f m f' m' rule: nodes.induct)
  case (1 d)
  then show ?case by (auto intro: kept.intros)
next
  case (2 d k v rest)
  from "2.prems"(1) obtain inc fc m2 f2 where
    step: "direct_match q k v = Inr inc" "v \<noteq> JNull"
      "filterEntries q (kid_entries v) empty_obj (Suc d) (if inc \<and> m < d then d else m) = Inr (fc, m2)"
      "place f k v inc (own fc) = Inr f2"
      "filterEntries q rest f2 d m2 = Inr (f', m')"
    by (rule filterEntries_ConsE)
  from "2.prems"(2) have wf: "well_formed v" "wf_props rest"
    by (simp_all add: wf_props_Cons)
  from ahead_Cons [OF "2.prems"(3)] have fresh: "\<not> has_key (own f) k"
    and pre: "\<forall>k' \<in> fst ` set (own f). js_lt k' k" and ah: "ahead f rest"
    by simp_all
  have "\<exists>new. own fc = own empty_obj @ new \<and> kept (kid_entries v) new"
    using step(3) wf(1) by (intro "2.IH"(1)) (simp_all add: wf_props_kid_entries)
  then have kids: "kept (kid_entries v) (own fc)" by (simp add: empty_obj_def)
  have rest: "\<exists>new. own f' = own f2 @ new \<and> kept rest new" if "ahead f2 rest"
    using step(5) wf(2) that by (rule "2.IH"(2))
  from step(4) fresh pre show ?case
  proof (cases rule: place_cases)
    case skip
    with ah have "ahead f2 rest" by (simp add: ahead_same)
    with rest skip obtain new where "own f' = own f @ new" "kept rest new" by auto
    then show ?thesis by (auto intro: kept.intros)
  next
    case orig
    with "2.prems"(2,3) have "ahead f2 rest" by (auto intro: ahead_step)
    with rest orig obtain new where "own f' = own f @ (k, v) # new" "kept rest new" by auto
    then show ?thesis by (auto intro: kept.intros)
  next
    case copy
    with "2.prems"(2,3) have "ahead f2 rest" by (auto intro: ahead_step)
    with rest copy obtain new where "own f' = own f @ (k, with_children v (own fc)) # new" "kept rest new"
      by auto
    with kids copy(1) show ?thesis by (auto intro: kept.intros)
  qed
qed






subsection \<open>The copy of a container\<close>

lemma kid_entries_nonemptyE:
  assumes "kid_entries v \<noteq> []"
  obtains (obj) kvs where "v = JObj kvs" "map_of kvs ''type'' = Some (JStr ''object'')"
      "truthy (map_of kvs ''properties'')"
  | (arr) kvs it where "v = JObj kvs" "map_of kvs ''type'' = Some (JStr ''array'')"
      "map_of kvs ''items'' = Some it" "is_object it" "truthy (Some it)"
proof -
  from assms have cp: "child_props v \<noteq> None"
    by (cases "child_props v") (simp_all add: kid_entries_def oentries_def)
  then obtain kvs where v: "v = JObj kvs"
    by (cases v) (simp_all add: child_props_def)
  show thesis
  proof (cases "map_of kvs ''type'' = Some (JStr ''object'') \<and> truthy (map_of kvs ''properties'')")
    case True
    with v show thesis by (intro obj) blast+
  next
    case False
    with cp v obtain it where "map_of kvs ''type'' = Some (JStr ''array'')"
      "map_of kvs ''items'' = Some it" "is_object it" "truthy (Some it)"
      by (auto simp: child_props_def split: if_splits option.splits)
    with v show thesis by (intro arr)
  qed
qed

lemma with_children_JObj:
  assumes "kid_entries v \<noteq> []"
  shows "\<exists>wkvs. with_children v fc = JObj wkvs
     \<and> (\<forall>n. n \<noteq> ''properties'' \<longrightarrow> n \<noteq> ''items'' \<longrightarrow> map_of wkvs n = field v n)
     \<and> (\<forall>n. has_key wkvs n = has_key (entries v) n)"
  using assms
proof (cases rule: kid_entries_nonemptyE)
  case (obj kvs)
  then have hk: "has_key kvs ''properties''"
    by (cases "map_of kvs ''properties''") (simp_all add: has_key_def)
  have "with_children v fc = JObj (AList.update ''properties'' (JObj fc) kvs)"
    using obj by (simp add: with_children_def)
  moreover have "\<forall>n. has_key (AList.update ''properties'' (JObj fc) kvs) n = has_key kvs n"
    using hk by (auto simp: has_key_update)
  ultimately show ?thesis using obj(1) by (simp add: update_conv')
next
  case (arr kvs it)
  then have hk: "has_key kvs ''items''"
    by (simp add: has_key_def)
  let ?its = "JObj (AList.update ''properties'' (JObj fc) (entries it))"
  have "with_children v fc = JObj (AList.update ''items'' ?its kvs)"
    using arr by (simp add: with_children_def)
  moreover have "\<forall>n. has_key (AList.update ''items'' ?its kvs) n = has_key kvs n"
    using hk by (auto simp: has_key_update)
  ultimately show ?thesis using arr(1) by (simp add: update_conv')
qed

lemma kid_entries_with_children:
  assumes "kid_entries v \<noteq> []"
  shows "kid_entries (with_children v fc) = fc"
  using assms
proof (cases rule: kid_entries_nonemptyE)
  case (obj kvs)
  then show ?thesis
    by (simp add: with_children_def kid_entries_def child_props_def oentries_def update_conv')
next
  case (arr kvs it)
  then show ?thesis
    by (simp add: with_children_def kid_entries_def child_props_def oentries_def update_conv')
qed

lemma with_children_idem:
  assumes "kid_entries v \<noteq> []"
  shows "with_children (with_children v fc) fc = with_children v fc"
  using assms
proof (cases rule: kid_entries_nonemptyE)
  case (obj kvs)
  then show ?thesis
    by (simp add: with_children_def update_conv')
next
  case (arr kvs it)
  then show ?thesis
    by (simp add: with_children_def update_conv')
qed

lemma direct_match_with_children:
  assumes "kid_entries v \<noteq> []"
  shows "direct_match q k (with_children v fc) = direct_match q k v"
proof -
  from with_children_JObj [OF assms, of fc] obtain wkvs where w: "with_children v fc = JObj wkvs"
    and same: "\<forall>n. n \<noteq> ''properties'' \<longrightarrow> n \<noteq> ''items'' \<longrightarrow> map_of wkvs n = field v n"
    by blast
  from same have d: "map_of wkvs ''description'' = field v ''description''" by simp
  from assms have "v \<noteq> JNull" by (cases rule: kid_entries_nonemptyE) simp_all
  with w d show ?thesis by (simp add: direct_match_def get_def)
qed

section \<open>Ancestors and depths\<close>

text \<open>
  The nodes of a properties map by their paths: the list of keys from the top level
  down to the node, so that a node of path \<open>p\<close> lies at depth \<open>length p - 1\<close> and its
  ancestors are the nodes of the proper prefixes of \<open>p\<close>.
\<close>

function paths :: "props \<Rightarrow> (string list \<times> json) list" where
  "paths [] = []"
| "paths ((k, v) # rest) =
     ([k], v) # map (\<lambda>(p, x). (k # p, x)) (paths (kid_entries v)) @ paths rest"
  by pat_completeness auto
termination paths
proof (relation "inv_image (less_than <*lex*> less_than) (\<lambda>es. (sum_sz es, length es))", goal_cases)
  case 1
  show ?case by (intro wf_inv_image wf_lex_prod wf_less_than)
next
  case (2 k v rest)
  show ?case using sum_sz_kid_entries [of v] by (auto simp: sum_sz_Cons sum_sz_def)
next
  case (3 k v rest)
  show ?case by (cases "sz v") (simp_all add: sum_sz_Cons)
qed

lemma kept_from_Nil: "kept es new \<Longrightarrow> es = [] \<Longrightarrow> new = []"
  by (induction rule: kept.induct) simp_all

lemma kept_Nil_left: "kept [] new \<Longrightarrow> new = []"
  by (rule kept_from_Nil) simp_all

lemma kept_paths:
  assumes "kept es new" "(p, x') \<in> set (paths new)"
  shows "\<exists>x. (p, x) \<in> set (paths es) \<and> (x' = x \<or> (\<exists>fc. x' = with_children x fc \<and> kid_entries x \<noteq> []))"
  using assms
proof (induction arbitrary: p x' rule: kept.induct)
  case kept_Nil
  then show ?case by simp
next
  case (kept_drop es new k v)
  then show ?case by fastforce
next
  case (kept_orig es new k v)
  from kept_orig.prems consider "p = [k]" "x' = v"
    | p' where "p = k # p'" "(p', x') \<in> set (paths (kid_entries v))"
    | "(p, x') \<in> set (paths new)"
    by auto
  then show ?case
  proof cases
    case 1
    then show ?thesis by auto
  next
    case 2
    then show ?thesis by force
  next
    case 3
    from kept_orig.IH [OF 3] show ?thesis by auto
  qed
next
  case (kept_copy es new v fc k)
  from kept_copy.hyps have ne: "kid_entries v \<noteq> []"
    by (auto dest: kept_Nil_left)
  from kept_copy.prems consider "p = [k]" "x' = with_children v fc"
    | p' where "p = k # p'" "(p', x') \<in> set (paths fc)"
    | "(p, x') \<in> set (paths new)"
    by (auto simp: kid_entries_with_children [OF ne])
  then show ?case
  proof cases
    case 1
    with ne show ?thesis by auto
  next
    case 2
    from kept_copy.IH(2) [OF 2(2)] obtain x where
      "(p', x) \<in> set (paths (kid_entries v))"
      "x' = x \<or> (\<exists>fc. x' = with_children x fc \<and> kid_entries x \<noteq> [])" by blast
    with 2(1) show ?thesis by force
  next
    case 3
    from kept_copy.IH(1) [OF 3] show ?thesis by auto
  qed
qed

lemma paths_nodes:
  "(p, x) \<in> set (paths es) \<Longrightarrow> p \<noteq> [] \<and> (d + length p - 1, last p, x) \<in> set (nodes d es)"
proof (induction d es arbitrary: p rule: nodes.induct)
  case (1 d)
  then show ?case by simp
next
  case (2 d k v rest)
  from "2.prems" consider "p = [k]" "x = v"
    | p' where "p = k # p'" "(p', x) \<in> set (paths (kid_entries v))"
    | "(p, x) \<in> set (paths rest)"
    by auto
  then show ?case
  proof cases
    case 1
    then show ?thesis by simp
  next
    case 2
    from "2.IH"(1) [OF 2(2)] have "p' \<noteq> []" "(Suc d + length p' - 1, last p', x) \<in> set (nodes (Suc d) (kid_entries v))"
      by simp_all
    with 2(1) show ?thesis by simp
  next
    case 3
    from "2.IH"(2) [OF 3] show ?thesis by simp
  qed
qed

lemma paths_prefix:
  "(p, x) \<in> set (paths es) \<Longrightarrow> 0 < n \<Longrightarrow> n < length p \<Longrightarrow> \<exists>u. (take n p, u) \<in> set (paths es)"
proof (induction es arbitrary: p n rule: paths.induct)
  case 1
  then show ?case by simp
next
  case (2 k v rest)
  from "2.prems"(1) consider "p = [k]" "x = v"
    | p' where "p = k # p'" "(p', x) \<in> set (paths (kid_entries v))"
    | "(p, x) \<in> set (paths rest)"
    by auto
  then show ?case
  proof cases
    case 1
    with "2.prems" show ?thesis by simp
  next
    case 2
    show ?thesis
    proof (cases n)
      case 0
      with "2.prems" show ?thesis by simp
    next
      case (Suc n')
      show ?thesis
      proof (cases n')
        case 0
        with Suc 2 show ?thesis by (auto intro: exI [of _ v])
      next
        case (Suc j)
        with \<open>n = Suc n'\<close> "2.prems" 2 have "0 < n'" "n' < length p'" by simp_all
        from "2.IH"(1) [OF 2(2) this] obtain u where "(take n' p', u) \<in> set (paths (kid_entries v))" ..
        with 2(1) \<open>n = Suc n'\<close> show ?thesis by force
      qed
    qed
  next
    case 3
    from "2.IH"(2) [OF 3 "2.prems"(2,3)] show ?thesis by auto
  qed
qed


lemma filterSchema_kept:
  assumes "filterSchema (Some (JObj P)) q = Inr (out, md)" and "well_formed (JObj P)"
  shows "kept P out"
proof -
  from assms(1) obtain f where run: "filterEntries q P empty_obj 0 0 = Inr (f, md)" "own f = out"
    by (rule filterSchema_ReturnsE)
  from run(1) assms(2) have "\<exists>new. own f = own empty_obj @ new \<and> kept P new"
    by (intro filterEntries_kept) (simp_all add: wf_props_def)
  with run(2) show "kept P out" by (simp add: empty_obj_def)
qed

lemma filterSchema_direct_depth_le:
  assumes "filterSchema (Some (JObj P)) q = Inr (out, md)"
    and "(d, k, v) \<in> set (nodes 0 P)" "direct q k v"
  shows "d \<le> md"
proof -
  from assms(1) obtain f where run: "filterEntries q P empty_obj 0 0 = Inr (f, md)"
    by (rule filterSchema_ReturnsE)
  from filterEntries_maxDepth_any [OF run, of 0] run
  have md: "md = max_list (direct_depths q 0 P)" by simp
  from assms(2,3) have "d \<in> set (direct_depths q 0 P)"
    by (force simp: direct_depths_def)
  then show "d \<le> md" unfolding md by (rule le_max_list)
qed

definition nested_example :: props where
  "nested_example =
     [(''a'', JObj [(''description'', JStr ''xx'')]),
      (''b'', JObj [(''type'', JStr ''object''),
         (''properties'', JObj
            [(''c'', JObj [(''description'', JStr ''no'')]),
             (''e'', JObj [(''type'', JStr ''array''),
                (''items'', JObj [(''type'', JStr ''object''),
                                 (''properties'', JObj [(''fxx'', JObj []), (''g'', JNum 1)])])])])])]"

definition nested_example_filtered :: props where
  "nested_example_filtered =
     [(''a'', JObj [(''description'', JStr ''xx'')]),
      (''b'', JObj [(''type'', JStr ''object''),
         (''properties'', JObj
            [(''e'', JObj [(''type'', JStr ''array''),
                (''items'', JObj [(''type'', JStr ''object''),
                                 (''properties'', JObj [(''fxx'', JObj [])])])])])])]"

lemma nested_example_run:
  "filterSchema (Some (JObj nested_example)) ''xx'' = Inr (nested_example_filtered, 2)"
  by (simp add: nested_example_def nested_example_filtered_def filter_eval)

lemma nested_example_distinct: "well_formed (JObj nested_example)"
  by (simp add: nested_example_def wf_eval)


section \<open>Filtering twice\<close>

text \<open>
  A prototype through which \<^verbatim>\<open>hasOwnProperty\<close> is still the built-in method.
\<close>

definition benign :: "proto \<Rightarrow> bool" where
  "benign p = (p \<noteq> NullPrototype \<and> \<not> proto_owns p ''hasOwnProperty'')"

lemma has_own_property_iff:
  "has_own_property f k = Inr b \<longleftrightarrow>
     \<not> has_key (own f) ''hasOwnProperty'' \<and> benign (proto f) \<and> b = has_key (own f) k"
  by (auto simp: has_own_property_def benign_def)

lemma js_set_ordinary:
  "k \<noteq> ''__proto__'' \<Longrightarrow> \<not> has_key (own f) k \<Longrightarrow> \<forall>k' \<in> fst ` set (own f). js_lt k' k \<Longrightarrow>
   js_set f k x = f\<lparr>own := own f @ [(k, x)]\<rparr>"
  by (simp add: js_set_def js_put_absent)

lemma place_replay:
  assumes pl: "place f k v inc fc = Inr f2"
    and fresh: "\<not> has_key (own f) k"
    and pre: "\<forall>k' \<in> fst ` set (own f). js_lt k' k"
    and og: "own g = own f"
    and bg: "benign (proto g)"
    and pg: "proto g = proto f \<or> k \<noteq> ''__proto__''"
    and cont: "fc \<noteq> [] \<longrightarrow> kid_entries v \<noteq> []"
  shows "own f2 = own f \<and> (proto f2 = proto f \<or> k = ''__proto__'')
       \<or> (\<exists>v' g2. own f2 = own f @ [(k, v')] \<and> (v' = v \<or> (fc \<noteq> [] \<and> v' = with_children v fc))
             \<and> place g k v' inc fc = Inr g2 \<and> own g2 = own g @ [(k, v')] \<and> benign (proto g2)
             \<and> (k \<noteq> ''__proto__'' \<longrightarrow> proto g2 = proto g \<and> proto f2 = proto f))"
    (is "?skip \<or> ?kept")
proof (cases "k = ''__proto__''")
  case ordinary: False
  from fresh og have freshg: "\<not> has_key (own g) k" by simp
  from pre og have preg: "\<forall>k' \<in> fst ` set (own g). js_lt k' k" by simp
  show ?thesis
  proof (cases "fc = []")
    case True
    show ?thesis
    proof (cases inc)
      case False
      with True pl have "f2 = f" by (simp add: place_def)
      then show ?thesis by simp
    next
      case inc: True
      with True pl obtain b where b: "has_own_property f k = Inr b" "f2 = (if b then f else js_set f k v)"
        by (cases "has_own_property f k") (auto simp: place_def)
      from b(1) fresh have ok: "\<not> has_key (own f) ''hasOwnProperty''" and nb: "\<not> b"
        by (simp_all add: has_own_property_iff)
      from b(2) nb have f2: "f2 = f\<lparr>own := own f @ [(k, v)]\<rparr>"
        by (simp add: js_set_ordinary [OF ordinary fresh pre])
      from ok og bg freshg have "has_own_property g k = Inr False"
        by (simp add: has_own_property_iff)
      with True inc have "place g k v inc fc = Inr (g\<lparr>own := own g @ [(k, v)]\<rparr>)"
        by (simp add: place_def js_set_ordinary [OF ordinary freshg preg])
      with f2 bg ordinary have ?kept
        by (intro exI [of _ v] exI [of _ "g\<lparr>own := own g @ [(k, v)]\<rparr>"]) simp
      then show ?thesis ..
    qed
  next
    case nonempty: False
    with cont have ne: "kid_entries v \<noteq> []" by simp
    let ?wc = "with_children v fc"
    let ?f1 = "f\<lparr>own := own f @ [(k, ?wc)]\<rparr>"
    let ?g1 = "g\<lparr>own := own g @ [(k, ?wc)]\<rparr>"
    have f1: "js_set f k ?wc = ?f1" by (rule js_set_ordinary [OF ordinary fresh pre])
    from nonempty pl f1 obtain b where b: "has_own_property ?f1 k = Inr b"
        "f2 = (if b then ?f1 else js_set ?f1 k v)"
      by (cases "has_own_property ?f1 k") (auto simp: place_def Let_def)
    from b(1) have ok: "\<not> has_key (own ?f1) ''hasOwnProperty''" and tb: "b"
      by (simp_all add: has_own_property_iff has_key_iff)
    from b(2) tb have f2: "f2 = ?f1" by simp
    have g1: "js_set g k ?wc = ?g1" by (rule js_set_ordinary [OF ordinary freshg preg])
    from ok og bg have "has_own_property ?g1 k = Inr True"
      by (simp add: has_own_property_iff has_key_iff)
    with nonempty g1 have "place g k ?wc inc fc = Inr ?g1"
      by (simp add: place_def Let_def with_children_idem [OF ne])
    with f2 bg ordinary nonempty have ?kept
      by (intro exI [of _ ?wc] exI [of _ ?g1]) simp
    then show ?thesis ..
  qed
next
  case special: True
  with pg og have gf: "g = f" by simp
  show ?thesis
  proof (cases "own f2 = own f")
    case True
    with special show ?thesis by simp
  next
    case changed: False
    show ?thesis
    proof (cases "fc = []")
      case True
      from changed pl True have inc: inc by (cases inc) (auto simp: place_def)
      with True pl obtain b where b: "has_own_property f k = Inr b" "f2 = (if b then f else js_set f k v)"
        by (cases "has_own_property f k") (auto simp: place_def)
      from b(1) fresh have bf: "benign (proto f)" and nb: "\<not> b"
        by (simp_all add: has_own_property_iff)
      from b(2) nb have f2: "f2 = js_set f k v" by simp
      from js_set_own_proto [of f k v] changed f2 fresh pre
      have "own f2 = own f @ [(k, v)]" "proto f2 = proto f"
        by (auto simp: js_put_absent)
      with pl gf bf special have ?kept
        by (intro exI [of _ v] exI [of _ f2]) simp
      then show ?thesis ..
    next
      case nonempty: False
      with cont have ne: "kid_entries v \<noteq> []" by simp
      let ?wc = "with_children v fc"
      let ?f1 = "js_set f k ?wc"
      from nonempty pl obtain b where b: "has_own_property ?f1 k = Inr b"
          "f2 = (if b then ?f1 else js_set ?f1 k v)"
        by (cases "has_own_property ?f1 k") (auto simp: place_def Let_def)
      from b(1) have b1: "benign (proto ?f1)" by (simp add: has_own_property_iff)
      show ?thesis
      proof (cases b)
        case True
        with b have f2: "f2 = ?f1" by simp
        from js_set_own_proto [of f k ?wc] changed f2 fresh pre
        have own2: "own f2 = own f @ [(k, ?wc)]"
          by (auto simp: js_put_absent)
        from nonempty b(1) True f2 have "place f k ?wc inc fc = Inr f2"
          by (simp add: place_def Let_def with_children_idem [OF ne])
        with own2 gf b1 f2 special nonempty have ?kept
          by (intro exI [of _ ?wc] exI [of _ f2]) simp
        then show ?thesis ..
      next
        case False
        with b have f2: "f2 = js_set ?f1 k v" by simp
        from b(1) False have "\<not> has_key (own ?f1) k" by (simp add: has_own_property_iff)
        with js_set_own_proto [of f k ?wc] have own1: "own ?f1 = own f"
          by (auto simp: has_key_js_put)
        from js_set_own_proto [of ?f1 k v] changed f2 own1 fresh pre
        have "own f2 = own f @ [(k, v)]" "proto f2 = proto ?f1"
          by (auto simp: js_put_absent)
        with pl gf b1 special have ?kept
          by (intro exI [of _ v] exI [of _ f2]) simp
        then show ?thesis ..
      qed
    qed
  qed
qed


lemma with_children_nonnull:
  assumes "kid_entries v \<noteq> []"
  shows "with_children v fc \<noteq> JNull"
proof -
  from with_children_JObj [OF assms, of fc] obtain wkvs where "with_children v fc = JObj wkvs"
    by blast
  then show ?thesis by simp
qed

lemma filterEntries_Nil_own:
  "filterEntries q [] empty_obj d m = Inr (fc, m2) \<Longrightarrow> own fc = []"
  by (auto simp: empty_obj_def)

lemma filterEntries_replay:
  assumes "filterEntries q es f d m = Inr (f', m')" "wf_props es"
    and "ahead f es"
    and "own g = own f" "benign (proto g)"
    and "proto g = proto f \<or> ''__proto__'' \<notin> fst ` set es"
  shows "\<exists>new. own f' = own f @ new \<and>
           (\<forall>n. \<exists>g' n'. filterEntries q new g d n = Inr (g', n') \<and> own g' = own g @ new)"
  using assms
proof (induction d es arbitrary: f m f' m' g rule: nodes.induct)
  case (1 d)
  then show ?case by simp
next
  case (2 d k v rest)
  from "2.prems"(1) obtain inc fc m2 f2 where
    step: "direct_match q k v = Inr inc" "v \<noteq> JNull"
      "filterEntries q (kid_entries v) empty_obj (Suc d) (if inc \<and> m < d then d else m) = Inr (fc, m2)"
      "place f k v inc (own fc) = Inr f2"
      "filterEntries q rest f2 d m2 = Inr (f', m')"
    by (rule filterEntries_ConsE)
  from "2.prems"(2) have wf: "k \<notin> fst ` set rest" "well_formed v" "wf_props rest"
    by (simp_all add: wf_props_Cons)
  from ahead_Cons [OF "2.prems"(3)] have fresh: "\<not> has_key (own f) k"
    and pre: "\<forall>k' \<in> fst ` set (own f). js_lt k' k" and ah: "ahead f rest"
    by simp_all
  note og = "2.prems"(4) and bg = "2.prems"(5)
  from "2.prems"(6) have pg: "proto g = proto f \<or> k \<noteq> ''__proto__''" by auto
  have cont: "own fc \<noteq> [] \<longrightarrow> kid_entries v \<noteq> []"
    using step(3) by (cases "kid_entries v = []") (auto simp: empty_obj_def)
  \<comment> \<open>the children, filtered once more\<close>
  have "\<exists>new. own fc = own empty_obj @ new \<and>
          (\<forall>n. \<exists>g' n'. filterEntries q new empty_obj (Suc d) n = Inr (g', n') \<and> own g' = own empty_obj @ new)"
    using step(3) wf(2)
    by (intro "2.IH"(1)) (simp_all add: wf_props_kid_entries empty_obj_def benign_def ahead_def has_key_def)
  then have kids_again: "\<exists>g' n'. filterEntries q (own fc) empty_obj (Suc d) n = Inr (g', n') \<and> own g' = own fc" for n
    by (simp add: empty_obj_def)
  from place_replay [OF step(4) fresh pre og bg pg cont]
  show ?case
  proof
    assume skip: "own f2 = own f \<and> (proto f2 = proto f \<or> k = ''__proto__'')"
    with "2.prems"(6) wf(1) have "proto g = proto f2 \<or> ''__proto__'' \<notin> fst ` set rest"
      by auto
    with skip og bg ah have
      "\<exists>new. own f' = own f2 @ new \<and>
         (\<forall>n. \<exists>g' n'. filterEntries q new g d n = Inr (g', n') \<and> own g' = own g @ new)"
      by (intro "2.IH"(2) [OF step(5) wf(3)]) (simp_all add: ahead_same)
    with skip show ?thesis by simp
  next
    assume "\<exists>v' g2. own f2 = own f @ [(k, v')] \<and> (v' = v \<or> (own fc \<noteq> [] \<and> v' = with_children v (own fc)))
             \<and> place g k v' inc (own fc) = Inr g2 \<and> own g2 = own g @ [(k, v')] \<and> benign (proto g2)
             \<and> (k \<noteq> ''__proto__'' \<longrightarrow> proto g2 = proto g \<and> proto f2 = proto f)"
    then obtain v' g2 where
      own2: "own f2 = own f @ [(k, v')]"
      and v': "v' = v \<or> (own fc \<noteq> [] \<and> v' = with_children v (own fc))"
      and pl2: "place g k v' inc (own fc) = Inr g2"
      and og2: "own g2 = own g @ [(k, v')]"
      and bg2: "benign (proto g2)"
      and pr2: "k \<noteq> ''__proto__'' \<longrightarrow> proto g2 = proto g \<and> proto f2 = proto f"
      by blast
    from "2.prems"(2,3) own2 have fresh2: "ahead f2 rest"
      by (auto intro: ahead_step)
    from og og2 own2 have og2': "own g2 = own f2" by simp
    from pr2 "2.prems"(6) wf(1) have pg2: "proto g2 = proto f2 \<or> ''__proto__'' \<notin> fst ` set rest"
      by auto
    from "2.IH"(2) [OF step(5) wf(3) fresh2 og2' bg2 pg2] obtain new where
      new: "own f' = own f2 @ new"
      and again: "\<And>n. \<exists>g' n'. filterEntries q new g2 d n = Inr (g', n') \<and> own g' = own g2 @ new"
      by blast
    have dm: "direct_match q k v' = Inr inc"
      using v' step(1) cont by (auto simp: direct_match_with_children)
    have nn: "v' \<noteq> JNull"
      using v' step(2) cont with_children_nonnull [of v "own fc"] by auto
    have "\<exists>g' n'. filterEntries q ((k, v') # new) g d n = Inr (g', n') \<and> own g' = own g @ (k, v') # new" for n
    proof -
      let ?n1 = "if inc \<and> n < d then d else n"
      have "\<exists>fc' n2. filterEntries q (kid_entries v') empty_obj (Suc d) ?n1 = Inr (fc', n2) \<and> own fc' = own fc"
        using v'
      proof
        assume "v' = v"
        with filterEntries_maxDepth_any [OF step(3), of ?n1] show ?thesis by simp
      next
        assume "own fc \<noteq> [] \<and> v' = with_children v (own fc)"
        with cont have "kid_entries v' = own fc" by (simp add: kid_entries_with_children)
        with kids_again [of ?n1] show ?thesis by simp
      qed
      then obtain fc' n2 where
        kids': "filterEntries q (kid_entries v') empty_obj (Suc d) ?n1 = Inr (fc', n2)" "own fc' = own fc"
        by blast
      from again [of n2] obtain g' n' where
        rest': "filterEntries q new g2 d n2 = Inr (g', n')" "own g' = own g2 @ new" by blast
      from pl2 kids'(2) have pl2': "place g k v' inc (own fc') = Inr g2" by simp
      from filterEntries_ConsI [OF dm nn kids'(1) pl2' rest'(1)] rest'(2) og2
      show ?thesis by simp
    qed
    with new own2 show ?thesis by (intro exI [of _ "(k, v') # new"]) simp
  qed
qed

text \<open>
  C6. Whenever \<^verbatim>\<open>filterSchema\<close> returns, filtering its output again with the same
  search string returns the same properties map.
\<close>

theorem filter_idempotent:
  assumes "filterSchema (Some (JObj P)) q = Inr (out, md)" and "well_formed (JObj P)"
  shows "\<exists>md'. filterSchema (Some (JObj out)) q = Inr (out, md')"
proof -
  from assms(1) obtain f where run: "filterEntries q P empty_obj 0 0 = Inr (f, md)" "own f = out"
    by (rule filterSchema_ReturnsE)
  from run(1) assms(2) have "\<exists>new. own f = own empty_obj @ new \<and>
      (\<forall>n. \<exists>g' n'. filterEntries q new empty_obj 0 n = Inr (g', n') \<and> own g' = own empty_obj @ new)"
    by (intro filterEntries_replay [where m = 0 and m' = md])
       (simp_all add: wf_props_def empty_obj_def benign_def ahead_def has_key_def)
  with run(2) have "\<forall>n. \<exists>g' n'. filterEntries q out empty_obj 0 n = Inr (g', n') \<and> own g' = out"
    by (simp add: empty_obj_def)
  then obtain g' n' where "filterEntries q out empty_obj 0 0 = Inr (g', n')" "own g' = out"
    by blast
  then show ?thesis by (auto simp: filterSchema_entries)
qed


definition matching_container :: props where
  "matching_container =
     [(''axx'', JObj [(''type'', JStr ''object''),
                     (''properties'', JObj [(''b'', JObj [(''description'', JStr ''no'')])])]),
      (''c'', JObj [(''type'', JStr ''object''),
                   (''properties'', JObj [(''dxx'', JNum 1), (''e'', JNum 2)])])]"

definition matching_container_filtered :: props where
  "matching_container_filtered =
     [(''axx'', JObj [(''type'', JStr ''object''),
                     (''properties'', JObj [(''b'', JObj [(''description'', JStr ''no'')])])]),
      (''c'', JObj [(''type'', JStr ''object''),
                   (''properties'', JObj [(''dxx'', JNum 1)])])]"

theorem filter_idempotent_witness:
  "filterSchema (Some (JObj matching_container)) ''xx'' = Inr (matching_container_filtered, 1)
   \<and> well_formed (JObj matching_container)
   \<and> (\<exists>md'. filterSchema (Some (JObj matching_container_filtered)) ''xx''
                = Inr (matching_container_filtered, md'))"
proof -
  have h: "filterSchema (Some (JObj matching_container)) ''xx'' = Inr (matching_container_filtered, 1)"
    by (simp add: matching_container_def matching_container_filtered_def filter_eval)
  have w: "well_formed (JObj matching_container)"
    by (simp add: matching_container_def wf_eval)
  from h w filter_idempotent [OF h w] show ?thesis by (intro conjI)
qed

section \<open>Which properties are kept\<close>

definition has_direct :: "string \<Rightarrow> nat \<Rightarrow> props \<Rightarrow> bool" where
  "has_direct q d es = (\<exists>(d', k, v) \<in> set (nodes d es). direct q k v)"

definition matches :: "string \<Rightarrow> nat \<Rightarrow> string \<times> json \<Rightarrow> bool" where
  "matches q d kv = (direct q (fst kv) (snd kv) \<or> has_direct q (Suc d) (kid_entries (snd kv)))"

lemma has_direct_Nil [simp]: "\<not> has_direct q d []"
  by (simp add: has_direct_def)

lemma has_direct_Cons:
  "has_direct q d ((k, v) # rest) \<longleftrightarrow> matches q d (k, v) \<or> has_direct q d rest"
  by (auto simp: has_direct_def matches_def)

lemma has_direct_iff: "has_direct q d es \<longleftrightarrow> (\<exists>kv \<in> set es. matches q d kv)"
  by (induction es) (auto simp: has_direct_Cons)

lemma place_ordinary:
  assumes "place f k v inc fc = Inr f2" "k \<noteq> ''__proto__''" "\<not> has_key (own f) k"
    and "\<forall>k' \<in> fst ` set (own f). js_lt k' k"
  shows "own f2 = own f @ (if fc \<noteq> [] then [(k, with_children v fc)] else if inc then [(k, v)] else [])"
proof (cases "fc = []")
  case True
  show ?thesis
  proof (cases inc)
    case False
    with True assms(1) show ?thesis by (simp add: place_def)
  next
    case inc: True
    with True assms(1) obtain b where b: "has_own_property f k = Inr b" "f2 = (if b then f else js_set f k v)"
      by (cases "has_own_property f k") (auto simp: place_def)
    with assms(3) have "f2 = js_set f k v" by (simp add: has_own_property_iff)
    with True inc show ?thesis by (simp add: js_set_ordinary [OF assms(2,3,4)])
  qed
next
  case nonempty: False
  let ?f1 = "f\<lparr>own := own f @ [(k, with_children v fc)]\<rparr>"
  have f1: "js_set f k (with_children v fc) = ?f1" by (rule js_set_ordinary [OF assms(2,3,4)])
  from nonempty assms(1) f1 obtain b where b: "has_own_property ?f1 k = Inr b"
      "f2 = (if b then ?f1 else js_set ?f1 k v)"
    by (cases "has_own_property ?f1 k") (auto simp: place_def Let_def)
  from b(1) have "b" by (simp add: has_own_property_iff has_key_iff)
  with b(2) nonempty show ?thesis by simp
qed

lemma nodes_plain_Cons:
  assumes "\<forall>(d', k', v') \<in> set (nodes d ((k, v) # rest)). k' \<noteq> ''__proto__''"
  shows "k \<noteq> ''__proto__''"
    and "\<forall>(d', k', v') \<in> set (nodes (Suc d) (kid_entries v)). k' \<noteq> ''__proto__''"
    and "\<forall>(d', k', v') \<in> set (nodes d rest). k' \<noteq> ''__proto__''"
  using assms by auto

lemma filterEntries_plain:
  assumes "filterEntries q es f d m = Inr (f', m')" "wf_props es" "ahead f es"
    and "\<forall>(d', k, v) \<in> set (nodes d es). k \<noteq> ''__proto__''"
  shows "\<exists>new. own f' = own f @ new \<and> map fst new = map fst (filter (matches q d) es)"
  using assms
proof (induction d es arbitrary: f m f' m' rule: nodes.induct)
  case (1 d)
  then show ?case by simp
next
  case (2 d k v rest)
  from "2.prems"(1) obtain inc fc m2 f2 where
    step: "direct_match q k v = Inr inc" "v \<noteq> JNull"
      "filterEntries q (kid_entries v) empty_obj (Suc d) (if inc \<and> m < d then d else m) = Inr (fc, m2)"
      "place f k v inc (own fc) = Inr f2"
      "filterEntries q rest f2 d m2 = Inr (f', m')"
    by (rule filterEntries_ConsE)
  from "2.prems"(2) have wf: "k \<notin> fst ` set rest" "well_formed v" "wf_props rest"
    by (simp_all add: wf_props_Cons)
  from ahead_Cons [OF "2.prems"(3)] have fresh: "\<not> has_key (own f) k"
    and pre: "\<forall>k' \<in> fst ` set (own f). js_lt k' k" and ah: "ahead f rest"
    by simp_all
  note plain = nodes_plain_Cons [OF "2.prems"(4)]
  have "\<exists>new. own fc = own empty_obj @ new \<and> map fst new = map fst (filter (matches q (Suc d)) (kid_entries v))"
    using step(3) wf(2) plain(2)
    by (intro "2.IH"(1)) (simp_all add: wf_props_kid_entries)
  then have "map fst (own fc) = map fst (filter (matches q (Suc d)) (kid_entries v))"
    by (simp add: empty_obj_def)
  then have "own fc \<noteq> [] \<longleftrightarrow> filter (matches q (Suc d)) (kid_entries v) \<noteq> []"
    by (metis map_is_Nil_conv)
  then have kids: "own fc \<noteq> [] \<longleftrightarrow> has_direct q (Suc d) (kid_entries v)"
    by (simp add: has_direct_iff filter_empty_conv)
  have incd: "inc = direct q k v" using step(1) by (auto simp: direct_def)
  let ?s = "if own fc \<noteq> [] then [(k, with_children v (own fc))] else if inc then [(k, v)] else []"
  from place_ordinary [OF step(4) plain(1) fresh pre] have own2: "own f2 = own f @ ?s" .
  have keys_s: "map fst ?s = (if matches q d (k, v) then [k] else [])"
    using kids incd by (simp add: matches_def)
  have fresh2: "ahead f2 rest"
  proof (cases "?s = []")
    case True
    with own2 ah show ?thesis by (simp add: ahead_same)
  next
    case False
    then obtain x where "?s = [(k, x)]" by (auto split: if_splits)
    with own2 "2.prems"(2,3) show ?thesis by (auto intro: ahead_step)
  qed
  from "2.IH"(2) [OF step(5) wf(3) fresh2 plain(3)] obtain new where
    new: "own f' = own f2 @ new" "map fst new = map fst (filter (matches q d) rest)"
    by blast
  from new own2 have "own f' = own f @ (?s @ new)" by simp
  moreover from new(2) keys_s have "map fst (?s @ new) = map fst (filter (matches q d) ((k, v) # rest))"
    by simp
  ultimately show ?case by blast
qed

text \<open>
  C1, as amended. Let the filter return on a properties map in which no visited
  property is named \<^verbatim>\<open>__proto__\<close>. Then a key is in the output exactly if it is a key
  of the map whose node matches directly, by name or description, or has a node
  below it that does; the nodes below a node are the ones the recursion visits: the
  entries of \<^verbatim>\<open>properties\<close> under a node of type \<^verbatim>\<open>"object"\<close>, the entries of
  \<^verbatim>\<open>items.properties\<close> under a node of type \<^verbatim>\<open>"array"\<close>, and so on from them. Every key
  of the output is a key of the map.
\<close>

theorem retained_iff_match_on_or_below:
  assumes "filterSchema (Some (JObj P)) q = Inr (out, md)" and "well_formed (JObj P)"
    and "\<forall>(d, k, v) \<in> set (nodes 0 P). k \<noteq> ''__proto__''"
  shows "(\<forall>k. has_key out k \<longleftrightarrow>
            (\<exists>v. (k, v) \<in> set P \<and>
               (direct q k v \<or> (\<exists>(d', k', v') \<in> set (nodes 1 (kid_entries v)). direct q k' v'))))
       \<and> fst ` set out \<subseteq> fst ` set P"
proof -
  from assms(1) obtain f where run: "filterEntries q P empty_obj 0 0 = Inr (f, md)" "own f = out"
    by (rule filterSchema_ReturnsE)
  from run(1) assms(2,3) have
    "\<exists>new. own f = own empty_obj @ new \<and> map fst new = map fst (filter (matches q 0) P)"
    by (intro filterEntries_plain) (simp_all add: wf_props_def)
  with run(2) have keys: "map fst out = map fst (filter (matches q 0) P)"
    by (simp add: empty_obj_def)
  have iff: "has_key out k \<longleftrightarrow>
      (\<exists>v. (k, v) \<in> set P \<and>
         (direct q k v \<or> (\<exists>(d', k', v') \<in> set (nodes 1 (kid_entries v)). direct q k' v')))" for k
  proof -
    have "has_key out k \<longleftrightarrow> k \<in> set (map fst out)" by (simp add: has_key_iff)
    also have "\<dots> \<longleftrightarrow> k \<in> fst ` set (filter (matches q 0) P)" by (simp add: keys)
    also have "\<dots> \<longleftrightarrow> (\<exists>v. (k, v) \<in> set P \<and> matches q 0 (k, v))" by force
    finally show ?thesis by (simp add: matches_def has_direct_def)
  qed
  have "set (map fst out) \<subseteq> set (map fst P)" unfolding keys by auto
  then have "fst ` set out \<subseteq> fst ` set P" by simp
  with iff show ?thesis by blast
qed

definition array_example :: props where
  "array_example =
     [(''tags'', JObj [(''type'', JStr ''array''),
         (''items'', JObj [(''type'', JStr ''object''),
                          (''properties'', JObj [(''label'', JObj [(''description'', JStr ''a short label'')]),
                                                (''rank'', JObj [(''type'', JStr ''number'')])])])]),
      (''label_count'', JObj [(''type'', JStr ''number'')]),
      (''size'', JObj [(''type'', JStr ''number'')])]"

definition array_example_filtered :: props where
  "array_example_filtered =
     [(''tags'', JObj [(''type'', JStr ''array''),
         (''items'', JObj [(''type'', JStr ''object''),
                          (''properties'', JObj [(''label'', JObj [(''description'', JStr ''a short label'')])])])]),
      (''label_count'', JObj [(''type'', JStr ''number'')])]"

theorem retained_iff_match_on_or_below_witness:
  "filterSchema (Some (JObj array_example)) ''label'' = Inr (array_example_filtered, 1)
   \<and> well_formed (JObj array_example)
   \<and> (has_key array_example_filtered ''tags'' \<longleftrightarrow>
        (\<exists>v. (''tags'', v) \<in> set array_example \<and>
           (direct ''label'' ''tags'' v
            \<or> (\<exists>(d', k', v') \<in> set (nodes 1 (kid_entries v)). direct ''label'' k' v'))))
   \<and> has_key array_example_filtered ''tags''
   \<and> \<not> has_key array_example_filtered ''size''
   \<and> fst ` set array_example_filtered \<subseteq> fst ` set array_example"
proof -
  have h: "filterSchema (Some (JObj array_example)) ''label'' = Inr (array_example_filtered, 1)"
    by (simp add: array_example_def array_example_filtered_def filter_eval)
  have w: "well_formed (JObj array_example)"
    by (simp add: array_example_def wf_eval)
  have p: "\<forall>(d, k, v) \<in> set (nodes 0 array_example). k \<noteq> ''__proto__''"
    by (simp add: array_example_def tree_eval)
  note t = retained_iff_match_on_or_below [OF h w p]
  note i = t [THEN conjunct1, THEN spec, of "''tags''"]
  have a: "has_key array_example_filtered ''tags''"
    by (simp add: array_example_filtered_def has_key_def)
  have b: "\<not> has_key array_example_filtered ''size''"
    by (simp add: array_example_filtered_def has_key_def)
  from t have "fst ` set array_example_filtered \<subseteq> fst ` set array_example" by (rule conjunct2)
  with h w i a b show ?thesis by (intro conjI)
qed

text \<open>
  C1 as stated fails: the children of a container are looked at only when its
  \<^verbatim>\<open>type\<close> is the string \<^verbatim>\<open>"object"\<close> (or \<^verbatim>\<open>"array"\<close>, for \<^verbatim>\<open>items\<close>). In
  \<^verbatim>\<open>{a: {properties: {bxx: {}}}}\<close> the nested property \<open>bxx\<close> matches \<^verbatim>\<open>"xx"\<close> by its
  name, and \<open>a\<close>, which has no \<^verbatim>\<open>type\<close>, is left out all the same.
\<close>

theorem untyped_container_left_out:
  "field (JObj [(''properties'', JObj [(''bxx'', JObj [])])]) ''properties''
     = Some (JObj [(''bxx'', JObj [])])
   \<and> direct_match ''xx'' ''bxx'' (JObj []) = Inr True
   \<and> filterSchema (Some (JObj [(''a'', JObj [(''properties'', JObj [(''bxx'', JObj [])])])])) ''xx''
       = Inr ([], 0)"
  by (simp add: filter_eval)


section \<open>Ancestors and depths of the kept nodes\<close>

text \<open>
  The filter as a function of the tree, for maps without a property named
  \<^verbatim>\<open>__proto__\<close>: a node with kept children is replaced by its copy holding them, a
  node without kept children stays as it is if it matches and is left out otherwise.
\<close>

function prune :: "string \<Rightarrow> props \<Rightarrow> props" where
  "prune q [] = []"
| "prune q ((k, v) # rest) =
     (let fc = prune q (kid_entries v) in
      (if fc \<noteq> [] then [(k, with_children v fc)]
       else if name_or_description_contains q k v then [(k, v)] else [])
      @ prune q rest)"
  by pat_completeness auto
termination prune
proof (relation "inv_image (less_than <*lex*> less_than) (\<lambda>(q, es). (sum_sz es, length es))", goal_cases)
  case 1
  show ?case by (intro wf_inv_image wf_lex_prod wf_less_than)
next
  case (2 q k v rest)
  show ?case using sum_sz_kid_entries [of v] by (auto simp: sum_sz_Cons sum_sz_def)
next
  case (3 q k v rest)
  show ?case by (cases "sz v") (simp_all add: sum_sz_Cons)
qed

lemma filterEntries_prune:
  assumes "filterEntries q es f d m = Inr (f', m')" "wf_props es" "ahead f es"
    and "\<forall>(d', k, v) \<in> set (nodes d es). k \<noteq> ''__proto__''"
  shows "own f' = own f @ prune q es"
  using assms
proof (induction d es arbitrary: f m f' m' rule: nodes.induct)
  case (1 d)
  then show ?case by simp
next
  case (2 d k v rest)
  from "2.prems"(1) obtain inc fc m2 f2 where
    step: "direct_match q k v = Inr inc" "v \<noteq> JNull"
      "filterEntries q (kid_entries v) empty_obj (Suc d) (if inc \<and> m < d then d else m) = Inr (fc, m2)"
      "place f k v inc (own fc) = Inr f2"
      "filterEntries q rest f2 d m2 = Inr (f', m')"
    by (rule filterEntries_ConsE)
  from "2.prems"(2) have wf: "k \<notin> fst ` set rest" "well_formed v" "wf_props rest"
    by (simp_all add: wf_props_Cons)
  from ahead_Cons [OF "2.prems"(3)] have fresh: "\<not> has_key (own f) k"
    and pre: "\<forall>k' \<in> fst ` set (own f). js_lt k' k" and ah: "ahead f rest"
    by simp_all
  note plain = nodes_plain_Cons [OF "2.prems"(4)]
  have "own fc = own empty_obj @ prune q (kid_entries v)"
    using step(3) wf(2) plain(2)
    by (intro "2.IH"(1)) (simp_all add: wf_props_kid_entries)
  then have kids: "own fc = prune q (kid_entries v)"
    by (simp add: empty_obj_def)
  have incd: "inc = name_or_description_contains q k v"
    using step(1) by (rule direct_match_contains)
  let ?s = "if own fc \<noteq> [] then [(k, with_children v (own fc))] else if inc then [(k, v)] else []"
  from place_ordinary [OF step(4) plain(1) fresh pre] have own2: "own f2 = own f @ ?s" .
  have fresh2: "ahead f2 rest"
  proof (cases "?s = []")
    case True
    with own2 ah show ?thesis by (simp add: ahead_same)
  next
    case False
    then obtain x where "?s = [(k, x)]" by (auto split: if_splits)
    with own2 "2.prems"(2,3) show ?thesis by (auto intro: ahead_step)
  qed
  from "2.IH"(2) [OF step(5) wf(3) fresh2 plain(3)]
  have "own f' = own f2 @ prune q rest" .
  with own2 have "own f' = own f @ (?s @ prune q rest)" by simp
  also have "?s @ prune q rest = prune q ((k, v) # rest)"
    unfolding kids incd by (simp add: Let_def)
  finally show ?case .
qed

lemma paths_append: "paths (xs @ ys) = paths xs @ paths ys"
  by (induction xs rule: paths.induct) simp_all

lemma prune_kids: "prune q es \<noteq> [] \<Longrightarrow> es \<noteq> []"
  by (cases es) simp_all

lemma paths_prune:
  assumes "(p, x) \<in> set (paths es)" "name_or_description_contains q (last p) x"
  shows "\<exists>x'. (p, x') \<in> set (paths (prune q es))"
  using assms
proof (induction es arbitrary: p rule: paths.induct)
  case 1
  then show ?case by simp
next
  case (2 k v rest)
  let ?fc = "prune q (kid_entries v)"
  let ?s = "if ?fc \<noteq> [] then [(k, with_children v ?fc)]
       else if name_or_description_contains q k v then [(k, v)] else []"
  have pr: "paths (prune q ((k, v) # rest)) = paths ?s @ paths (prune q rest)"
    by (simp add: Let_def paths_append del: paths.simps)
  from "2.prems"(1) consider "p = [k]" "x = v"
    | p' where "p = k # p'" "(p', x) \<in> set (paths (kid_entries v))"
    | "(p, x) \<in> set (paths rest)"
    by auto
  then show ?case
  proof cases
    case 1
    with "2.prems"(2) have "\<exists>x'. ([k], x') \<in> set (paths ?s)"
      by (cases "?fc = []") (auto simp del: prune.simps)
    then obtain x' where "([k], x') \<in> set (paths ?s)" ..
    then have "([k], x') \<in> set (paths (prune q ((k, v) # rest)))" unfolding pr by simp
    with 1 show ?thesis by blast
  next
    case 2
    from paths_nodes [OF 2(2), of 0] have "p' \<noteq> []" by simp
    with 2(1) "2.prems"(2) have "name_or_description_contains q (last p') x" by simp
    from "2.IH"(1) [OF 2(2) this] obtain x' where x': "(p', x') \<in> set (paths ?fc)" ..
    then have ne: "?fc \<noteq> []" by auto
    then have "kid_entries v \<noteq> []" by (rule prune_kids)
    then have "kid_entries (with_children v ?fc) = ?fc" by (rule kid_entries_with_children)
    with ne x' 2(1) have "(p, x') \<in> set (paths ?s)" by force
    then have "(p, x') \<in> set (paths (prune q ((k, v) # rest)))" unfolding pr by simp
    then show ?thesis ..
  next
    case 3
    from "2.IH"(2) [OF 3 "2.prems"(2)] obtain x' where "(p, x') \<in> set (paths (prune q rest))" ..
    then have "(p, x') \<in> set (paths (prune q ((k, v) # rest)))" unfolding pr by simp
    then show ?thesis ..
  qed
qed

lemma contains_with_children:
  assumes "kid_entries v \<noteq> []"
  shows "name_or_description_contains q k (with_children v fc) = name_or_description_contains q k v"
proof -
  from with_children_JObj [OF assms, of fc] obtain wkvs where w: "with_children v fc = JObj wkvs"
    and same: "\<forall>n. n \<noteq> ''properties'' \<longrightarrow> n \<noteq> ''items'' \<longrightarrow> map_of wkvs n = field v n"
    by blast
  from same have d: "map_of wkvs ''description'' = field v ''description''" by simp
  with w show ?thesis by (simp add: name_or_description_contains_def)
qed

lemma filterSchema_prune:
  assumes "filterSchema (Some (JObj P)) q = Inr (out, md)" and "well_formed (JObj P)"
    and "\<forall>(d, k, v) \<in> set (nodes 0 P). k \<noteq> ''__proto__''"
  shows "out = prune q P"
proof -
  from assms(1) obtain f where run: "filterEntries q P empty_obj 0 0 = Inr (f, md)" "own f = out"
    by (rule filterSchema_ReturnsE)
  from run(1) assms(2,3) have "own f = own empty_obj @ prune q P"
    by (intro filterEntries_prune) (simp_all add: wf_props_def)
  with run(2) show ?thesis by (simp add: empty_obj_def)
qed

lemma filterSchema_contains_depth_le:
  assumes "filterSchema (Some (JObj P)) q = Inr (out, md)"
    and "(d, k, v) \<in> set (nodes 0 P)" "name_or_description_contains q k v"
  shows "d \<le> md"
proof -
  from assms(1) obtain f where run: "filterEntries q P empty_obj 0 0 = Inr (f, md)"
    by (rule filterSchema_ReturnsE)
  from visited_match_defined [OF run assms(2)] assms(3) have "direct q k v" by simp
  from filterSchema_direct_depth_le [OF assms(1,2) this] show ?thesis .
qed


text \<open>
  C10, as amended. The nodes meant are those on the paths the recursion follows
  (\<open>paths\<close>): what lies inside a container that is kept without being descended
  into is carried along unexamined. Whenever \<^verbatim>\<open>filterSchema\<close> returns, every node of the
  filtered tree is a node of the original tree at the same path, hence at the same
  depth, as the original value or as its copy with filtered children, and its name or
  description contains the search string exactly if the original's does; its
  ancestors in the original tree, the nodes of the prefixes of its path, are in the
  filtered tree at these prefixes; and if it matches directly, its depth is at most
  the returned \<^verbatim>\<open>maxDepth\<close>. Conversely, when no visited property is named
  \<^verbatim>\<open>__proto__\<close>, every node of the original tree that matches directly is in the
  filtered tree at its path, with all its ancestors.
\<close>

theorem ancestors_and_depth_preserved:
  assumes "filterSchema (Some (JObj P)) q = Inr (out, md)" and "well_formed (JObj P)"
  shows "(\<forall>(p, x') \<in> set (paths out).
           (\<exists>x. (p, x) \<in> set (paths P) \<and> (x' = x \<or> (\<exists>fc. x' = with_children x fc))
                \<and> name_or_description_contains q (last p) x'
                    = name_or_description_contains q (last p) x)
         \<and> (\<forall>n. 0 < n \<and> n < length p \<longrightarrow>
               (\<exists>a u. (take n p, a) \<in> set (paths P) \<and> (take n p, u) \<in> set (paths out)
                      \<and> (u = a \<or> (\<exists>fc. u = with_children a fc))))
         \<and> (name_or_description_contains q (last p) x' \<longrightarrow> length p - 1 \<le> md))
       \<and> ((\<forall>(d, k, v) \<in> set (nodes 0 P). k \<noteq> ''__proto__'') \<longrightarrow>
          (\<forall>(p, x) \<in> set (paths P). name_or_description_contains q (last p) x \<longrightarrow>
             (\<forall>n. 0 < n \<and> n \<le> length p \<longrightarrow> (\<exists>u. (take n p, u) \<in> set (paths out)))))"
proof (intro conjI)
  from assms have k: "kept P out" by (rule filterSchema_kept)
  have orig: "\<exists>x. (p, x) \<in> set (paths P)
        \<and> (x' = x \<or> (\<exists>fc. x' = with_children x fc))
        \<and> name_or_description_contains q (last p) x' = name_or_description_contains q (last p) x"
    if "(p, x') \<in> set (paths out)" for p x'
  proof -
    from kept_paths [OF k that] obtain x where x: "(p, x) \<in> set (paths P)"
      and x': "x' = x \<or> (\<exists>fc. x' = with_children x fc \<and> kid_entries x \<noteq> [])"
      by blast
    from x' have "name_or_description_contains q (last p) x' = name_or_description_contains q (last p) x"
      by (auto simp: contains_with_children)
    with x x' show ?thesis by blast
  qed
  show "\<forall>(p, x') \<in> set (paths out).
           (\<exists>x. (p, x) \<in> set (paths P) \<and> (x' = x \<or> (\<exists>fc. x' = with_children x fc))
                \<and> name_or_description_contains q (last p) x'
                    = name_or_description_contains q (last p) x)
         \<and> (\<forall>n. 0 < n \<and> n < length p \<longrightarrow>
               (\<exists>a u. (take n p, a) \<in> set (paths P) \<and> (take n p, u) \<in> set (paths out)
                      \<and> (u = a \<or> (\<exists>fc. u = with_children a fc))))
         \<and> (name_or_description_contains q (last p) x' \<longrightarrow> length p - 1 \<le> md)"
  proof (clarify, intro conjI allI impI)
    fix p x'
    assume px: "(p, x') \<in> set (paths out)"
    from orig [OF px] obtain x where x: "(p, x) \<in> set (paths P)"
      and same: "name_or_description_contains q (last p) x' = name_or_description_contains q (last p) x"
      by blast
    from orig [OF px]
    show "\<exists>x. (p, x) \<in> set (paths P) \<and> (x' = x \<or> (\<exists>fc. x' = with_children x fc))
                \<and> name_or_description_contains q (last p) x'
                    = name_or_description_contains q (last p) x" .
    {
      fix n assume "0 < n \<and> n < length p"
      with px obtain u where u: "(take n p, u) \<in> set (paths out)"
        by (auto dest: paths_prefix)
      from orig [OF u] obtain a where "(take n p, a) \<in> set (paths P)"
        "u = a \<or> (\<exists>fc. u = with_children a fc)" by blast
      with u show "\<exists>a u. (take n p, a) \<in> set (paths P) \<and> (take n p, u) \<in> set (paths out)
                      \<and> (u = a \<or> (\<exists>fc. u = with_children a fc))" by blast
    }
    {
      assume "name_or_description_contains q (last p) x'"
      with same have d: "name_or_description_contains q (last p) x" by simp
      from paths_nodes [OF x, of 0] have "(length p - 1, last p, x) \<in> set (nodes 0 P)" by simp
      from filterSchema_contains_depth_le [OF assms(1) this d]
      show "length p - 1 \<le> md" .
    }
  qed
  show "(\<forall>(d, k, v) \<in> set (nodes 0 P). k \<noteq> ''__proto__'') \<longrightarrow>
          (\<forall>(p, x) \<in> set (paths P). name_or_description_contains q (last p) x \<longrightarrow>
             (\<forall>n. 0 < n \<and> n \<le> length p \<longrightarrow> (\<exists>u. (take n p, u) \<in> set (paths out))))"
  proof (intro impI, clarify)
    fix p x n
    assume plain: "\<forall>(d, k, v) \<in> set (nodes 0 P). k \<noteq> ''__proto__''"
      and px: "(p, x) \<in> set (paths P)" and c: "name_or_description_contains q (last p) x"
      and n: "0 < n" "n \<le> length p"
    from filterSchema_prune [OF assms plain] have out: "out = prune q P" .
    from paths_prune [OF px c] obtain x' where x': "(p, x') \<in> set (paths out)"
      unfolding out ..
    show "\<exists>u. (take n p, u) \<in> set (paths out)"
    proof (cases "n = length p")
      case True
      with x' show ?thesis by auto
    next
      case False
      with n have "n < length p" by simp
      from paths_prefix [OF x' n(1) this] show ?thesis .
    qed
  qed
qed


theorem ancestors_and_depth_preserved_witness:
  "filterSchema (Some (JObj nested_example)) ''xx'' = Inr (nested_example_filtered, 2)
   \<and> well_formed (JObj nested_example)
   \<and> ([''b'', ''e'', ''fxx''], JObj []) \<in> set (paths nested_example_filtered)
   \<and> name_or_description_contains ''xx'' (last [''b'', ''e'', ''fxx'']) (JObj [])
   \<and> length [''b'', ''e'', ''fxx''] - 1 \<le> (2::nat)
   \<and> ([''b'', ''e'', ''fxx''], JObj []) \<in> set (paths nested_example)
   \<and> (\<exists>u. (take 2 [''b'', ''e'', ''fxx''], u) \<in> set (paths nested_example_filtered))
   \<and> ([''b'', ''c''], JObj [(''description'', JStr ''no'')]) \<in> set (paths nested_example)
   \<and> \<not> name_or_description_contains ''xx'' ''c'' (JObj [(''description'', JStr ''no'')])
   \<and> [''b'', ''c''] \<notin> fst ` set (paths nested_example_filtered)"
proof -
  have m: "([''b'', ''e'', ''fxx''], JObj []) \<in> set (paths nested_example_filtered)"
    by (simp add: nested_example_filtered_def tree_eval)
  have m0: "([''b'', ''e'', ''fxx''], JObj []) \<in> set (paths nested_example)"
    by (simp add: nested_example_def tree_eval)
  have d: "name_or_description_contains ''xx'' (last [''b'', ''e'', ''fxx'']) (JObj [])"
    by (simp add: name_or_description_contains_def sublist_code prefix_code)
  have plain: "\<forall>(d, k, v) \<in> set (nodes 0 nested_example). k \<noteq> ''__proto__''"
    by (simp add: nested_example_def tree_eval)
  have c0: "([''b'', ''c''], JObj [(''description'', JStr ''no'')]) \<in> set (paths nested_example)"
    by (simp add: nested_example_def tree_eval)
  have c1: "\<not> name_or_description_contains ''xx'' ''c'' (JObj [(''description'', JStr ''no'')])"
    by (simp add: name_or_description_contains_def sublist_code prefix_code)
  have c2: "[''b'', ''c''] \<notin> fst ` set (paths nested_example_filtered)"
    by (simp add: nested_example_filtered_def tree_eval)
  note t = ancestors_and_depth_preserved [OF nested_example_run nested_example_distinct]
  have "name_or_description_contains ''xx'' (last [''b'', ''e'', ''fxx'']) (JObj [])
      \<longrightarrow> length [''b'', ''e'', ''fxx''] - 1 \<le> (2::nat)"
    using bspec [OF t [THEN conjunct1] m, unfolded prod.case, THEN conjunct2, THEN conjunct2] .
  with d have le: "length [''b'', ''e'', ''fxx''] - 1 \<le> (2::nat)" by (rule rev_mp)
  note c = bspec [OF t [THEN conjunct2, THEN mp, OF plain] m0, unfolded prod.case, THEN mp, OF d,
      THEN spec, of 2]
  then have anc: "\<exists>u. (take 2 [''b'', ''e'', ''fxx''], u) \<in> set (paths nested_example_filtered)"
    by simp
  from nested_example_run nested_example_distinct m d le m0 anc c0 c1 c2
  show ?thesis by (intro conjI)
qed


text \<open>
  C10 as stated fails for a node inside a container that is kept but not descended
  into: \<open>axx\<close> has no \<^verbatim>\<open>type\<close>, is kept for its name with its \<^verbatim>\<open>properties\<close> as they
  are, and \<open>bxx\<close> in them matches by name at depth 1, above the returned
  \<^verbatim>\<open>maxDepth = 0\<close>.
\<close>

theorem retained_match_deeper_than_maxDepth:
  "filterSchema (Some (JObj [(''axx'', JObj [(''properties'', JObj [(''bxx'', JObj [])])])])) ''xx''
     = Inr ([(''axx'', JObj [(''properties'', JObj [(''bxx'', JObj [])])])], 0)
   \<and> field (JObj [(''properties'', JObj [(''bxx'', JObj [])])]) ''properties''
       = Some (JObj [(''bxx'', JObj [])])
   \<and> name_or_description_contains ''xx'' ''bxx'' (JObj [])
   \<and> paths [(''axx'', JObj [(''properties'', JObj [(''bxx'', JObj [])])])]
       = [([''axx''], JObj [(''properties'', JObj [(''bxx'', JObj [])])])]"
  by (simp add: filter_eval name_or_description_contains_def tree_eval)


section \<open>Malformed fragments\<close>




lemma place_empty_obj:
  "place empty_obj k v inc [] = Inr (if inc \<and> k \<noteq> ''__proto__'' then \<lparr>own = [(k, v)], proto = ObjectPrototype\<rparr>
      else if inc then js_set empty_obj k v else empty_obj)"
  by (simp add: place_def has_own_property_def has_key_def empty_obj_def js_set_def js_put_def Let_def)

lemma own_js_set_proto_empty: "own (js_set empty_obj ''__proto__'' v) = []"
  by (cases v) (simp_all add: js_set_def empty_obj_def has_key_def)


















section \<open>A property named \<^verbatim>\<open>__proto__\<close>\<close>

text \<open>
  \<^verbatim>\<open>filtered\<close> is a plain object used as a dictionary. For ordinary names the copy
  of a container whose children matched is what the output holds:
  \<open>place_ordinary\<close>. For the name \<^verbatim>\<open>__proto__\<close> the assignment of line 75 reaches
  the prototype setter and creates no property; the test of line 91 then finds no
  own property and line 92 assigns the original node, which becomes an own property
  when the copy, now the prototype, has a property \<^verbatim>\<open>__proto__\<close> of its own.

  C7 (the code departs from it). The container \<^verbatim>\<open>__proto__\<close> below is included
  only for its child \<open>idx\<close>: the recursive call keeps \<open>idx\<close> alone, and the
  output holds the original node, with \<open>idx\<close> and \<open>y\<close>.
\<close>

theorem proto_named_container_unfiltered:
  "filterProperties ''id'' (Some (JObj [(''idx'', JObj []), (''y'', JObj [])])) 1 0
     = Inr ([(''idx'', JObj [])], 1)
   \<and> filterSchema
        (Some (JObj [(''__proto__'',
            JObj [(''type'', JStr ''object''), (''__proto__'', JNum 1),
                  (''properties'', JObj [(''idx'', JObj []), (''y'', JObj [])])])]))
        ''id''
       = Inr ([(''__proto__'',
            JObj [(''type'', JStr ''object''), (''__proto__'', JNum 1),
                  (''properties'', JObj [(''idx'', JObj []), (''y'', JObj [])])])], 1)"
  by (simp add: filter_eval)

section \<open>Schemas as object graphs\<close>

text \<open>
  \<^verbatim>\<open>filterSchema\<close> itself takes any value: a graph of plain objects and arrays in which
  two properties may hold the same object, so that an object can be reached from
  itself. Such a value is a primitive or a reference to an object of a store, which
  the filter only reads. The operations are those of the first section, with the
  store as a parameter.
\<close>

datatype gval = GNull | GBool bool | GNum int | GStr string | GRef nat

datatype gobj = GObject "(string \<times> gval) list" | GArray "gval list"

type_synonym graph = "nat \<Rightarrow> gobj"


fun truthy_g :: "gval option \<Rightarrow> bool" where
  "truthy_g None = False"
| "truthy_g (Some GNull) = False"
| "truthy_g (Some (GBool b)) = b"
| "truthy_g (Some (GNum n)) = (n \<noteq> 0)"
| "truthy_g (Some (GStr s)) = (s \<noteq> [])"
| "truthy_g (Some (GRef a)) = True"

fun field_g :: "graph \<Rightarrow> gval \<Rightarrow> string \<Rightarrow> gval option" where
  "field_g h (GRef a) name = (case h a of GObject kvs \<Rightarrow> map_of kvs name | GArray xs \<Rightarrow> None)"
| "field_g h v name = None"


fun entries_g :: "graph \<Rightarrow> gval \<Rightarrow> (string \<times> gval) list" where
  "entries_g h (GRef a) =
     (case h a of
        GObject kvs \<Rightarrow> kvs
      | GArray xs \<Rightarrow> zip (map string_of_nat [0..<length xs]) xs)"
| "entries_g h (GStr s) = zip (map string_of_nat [0..<length s]) (map (\<lambda>c. GStr [c]) s)"
| "entries_g h v = []"


fun is_object_g :: "gval \<Rightarrow> bool" where
  "is_object_g (GRef a) = True"
| "is_object_g v = False"



text \<open>
  What the filter builds is new: the accumulator \<^verbatim>\<open>filtered\<close> and the spread copies
  are object literals (\<open>Fresh\<close>), whose properties hold values of the input by
  reference (\<open>Orig\<close>) or further literals.
\<close>

datatype oval = Orig gval | Fresh "(string \<times> oval) list"











text \<open>
  One iteration of the loop, as in the tree embedding: \<open>child_call h v\<close> is the
  argument of the recursive call the iteration makes for the node \<open>v\<close>, if it makes
  one.
\<close>

definition child_call :: "graph \<Rightarrow> gval \<Rightarrow> gval option option" where
  "child_call h v =
     (if field_g h v ''type'' = Some (GStr ''object'') \<and> truthy_g (field_g h v ''properties'')
      then Some (field_g h v ''properties'')
      else if field_g h v ''type'' = Some (GStr ''array'') \<and> truthy_g (field_g h v ''items'')
      then (case field_g h v ''items'' of
              Some it \<Rightarrow> if is_object_g it then Some (field_g h it ''properties'') else None
            | None \<Rightarrow> None)
      else None)"





text \<open>
  \<open>shallow n h po\<close>: every chain of recursive calls that starts with the call on
  \<open>po\<close> has at most \<open>n\<close> calls. \<open>first_descent h q a a'\<close>: the first entry of the map
  at address \<open>a\<close> is read without a TypeError and makes the filter call itself on the map
  at address \<open>a'\<close>.
\<close>

definition oentries_g :: "graph \<Rightarrow> gval option \<Rightarrow> (string \<times> gval) list" where
  "oentries_g h po = (case po of None \<Rightarrow> [] | Some p \<Rightarrow> if truthy_g (Some p) then entries_g h p else [])"

primrec shallow :: "nat \<Rightarrow> graph \<Rightarrow> gval option \<Rightarrow> bool" where
  "shallow 0 h po = False"
| "shallow (Suc n) h po =
     list_all (\<lambda>(k, v). case child_call h v of None \<Rightarrow> True | Some po' \<Rightarrow> shallow n h po')
       (oentries_g h po)"












section \<open>Termination\<close>

text \<open>
  \<open>rep h gv t\<close>: in the store \<open>h\<close> the value \<open>gv\<close> unfolds to the JSON tree \<open>t\<close>.
  Only a value from which no object is reached from itself unfolds to a tree.
\<close>

fun rep :: "graph \<Rightarrow> gval \<Rightarrow> json \<Rightarrow> bool" where
  "rep h gv JNull = (gv = GNull)"
| "rep h gv (JBool b) = (gv = GBool b)"
| "rep h gv (JNum n) = (gv = GNum n)"
| "rep h gv (JStr s) = (gv = GStr s)"
| "rep h gv (JArr xs) =
     (case gv of
        GRef a \<Rightarrow>
          (case h a of
             GArray gxs \<Rightarrow> list_all2 (\<lambda>g x. rep h g x) gxs xs
           | GObject gkvs \<Rightarrow> False)
      | _ \<Rightarrow> False)"
| "rep h gv (JObj kvs) =
     (case gv of
        GRef a \<Rightarrow>
          (case h a of
             GObject gkvs \<Rightarrow> list_all2 (\<lambda>gkv kv. fst gkv = fst kv \<and> rep h (snd gkv) (snd kv)) gkvs kvs
           | GArray gxs \<Rightarrow> False)
      | _ \<Rightarrow> False)"


abbreviation rep_entry :: "graph \<Rightarrow> string \<times> gval \<Rightarrow> string \<times> json \<Rightarrow> bool" where
  "rep_entry h gkv kv \<equiv> fst gkv = fst kv \<and> rep h (snd gkv) (snd kv)"

lemma rep_GNull [simp]: "rep h GNull t \<longleftrightarrow> t = JNull"
  by (cases t) auto

lemma rep_GBool [simp]: "rep h (GBool b) t \<longleftrightarrow> t = JBool b"
  by (cases t) auto

lemma rep_GNum [simp]: "rep h (GNum n) t \<longleftrightarrow> t = JNum n"
  by (cases t) auto

lemma rep_GStr [simp]: "rep h (GStr s) t \<longleftrightarrow> t = JStr s"
  by (cases t) auto


lemma rep_truthy: "rep h gv t \<Longrightarrow> truthy_g (Some gv) = truthy (Some t)"
  by (cases t) (auto split: gval.splits)

lemma rep_is_object: "rep h gv t \<Longrightarrow> is_object_g gv = is_object t"
  by (cases t) (auto split: gval.splits)

lemma map_of_rep:
  "list_all2 (rep_entry h) gkvs kvs \<Longrightarrow> rel_option (rep h) (map_of gkvs name) (map_of kvs name)"
  by (induction gkvs kvs rule: list_all2_induct) auto

lemma rep_field: "rep h gv t \<Longrightarrow> rel_option (rep h) (field_g h gv name) (field t name)"
  by (cases t) (auto split: gval.splits gobj.splits intro: map_of_rep)

lemma zip_rep:
  "list_all2 R gxs xs \<Longrightarrow> length ks = length xs \<Longrightarrow>
   list_all2 (\<lambda>gkv kv. fst gkv = fst kv \<and> R (snd gkv) (snd kv)) (zip ks gxs) (zip ks xs)"
  by (auto simp: list_all2_conv_all_nth)

lemma rep_entries: "rep h gv t \<Longrightarrow> list_all2 (rep_entry h) (entries_g h gv) (entries t)"
proof (cases t)
  case (JArr xs)
  assume "rep h gv t"
  with JArr obtain a gxs where "gv = GRef a" "h a = GArray gxs" "list_all2 (rep h) gxs xs"
    by (auto split: gval.splits gobj.splits)
  with JArr show ?thesis
    using zip_rep [of "rep h" gxs xs "map string_of_nat [0..<length xs]"]
    by (simp add: list_all2_lengthD)
next
  case (JStr s)
  assume "rep h gv t"
  with JStr show ?thesis
    by (simp add: list_all2_conv_all_nth)
qed (auto split: gval.splits gobj.splits)

lemma rel_option_rep_truthy: "rel_option (rep h) gpo po \<Longrightarrow> truthy_g gpo = truthy po"
  by (cases gpo; cases po) (simp_all add: rep_truthy)

lemma rep_oentries:
  "rel_option (rep h) gpo po \<Longrightarrow> list_all2 (rep_entry h) (oentries_g h gpo) (oentries po)"
  by (cases gpo; cases po) (simp_all add: oentries_g_def oentries_def rep_truthy rep_entries)

lemma rep_type:
  "rep h gv t \<Longrightarrow> field_g h gv ''type'' = Some (GStr s) \<longleftrightarrow> field t ''type'' = Some (JStr s)"
  using rep_field [of h gv t "''type''"]
  by (cases "field_g h gv ''type''"; cases "field t ''type''") auto

lemma rep_child_call:
  assumes "rep h gv t"
  shows "case child_call h gv of
           None \<Rightarrow> child_props t = None
         | Some gpo \<Rightarrow> rel_option (rep h) gpo (child_props t)"
proof -
  note ty = rep_type [OF assms]
  note pr = rep_field [OF assms, of "''properties''"]
  note it = rep_field [OF assms, of "''items''"]
  show ?thesis
  proof (cases "field t ''type'' = Some (JStr ''object'') \<and> truthy (field t ''properties'')")
    case True
    with ty pr show ?thesis
      by (simp add: child_call_def child_props_def rel_option_rep_truthy)
  next
    case False
    with ty pr have nobj: "\<not> (field_g h gv ''type'' = Some (GStr ''object'')
        \<and> truthy_g (field_g h gv ''properties''))"
      by (simp add: rel_option_rep_truthy)
    show ?thesis
    proof (cases "field t ''items''")
      case None
      with it have "field_g h gv ''items'' = None" by (cases "field_g h gv ''items''") simp_all
      with None False nobj show ?thesis
        by (auto simp: child_call_def child_props_def)
    next
      case (Some ti)
      with it obtain gi where gi: "field_g h gv ''items'' = Some gi" "rep h gi ti"
        by (cases "field_g h gv ''items''") simp_all
      from gi(2) have "truthy_g (Some gi) = truthy (Some ti)" "is_object_g gi = is_object ti"
        by (simp_all add: rep_truthy rep_is_object)
      with Some gi False nobj ty rep_field [OF gi(2), of "''properties''"] show ?thesis
        by (auto simp: child_call_def child_props_def)
    qed
  qed
qed

lemma sz_child_props: "child_props v = Some p \<Longrightarrow> sz p < sz v"
proof (cases "field v ''type'' = Some (JStr ''object'') \<and> truthy (field v ''properties'')")
  case True
  assume "child_props v = Some p"
  with True show ?thesis by (auto simp: child_props_def dest: osz_field)
next
  case False
  assume "child_props v = Some p"
  with False obtain it where it: "field v ''items'' = Some it" "field it ''properties'' = Some p"
    by (auto simp: child_props_def split: if_splits option.splits)
  then have "sz p < sz it" "sz it < sz v" by (auto dest: osz_field)
  then show ?thesis by simp
qed

lemma child_call_typed: "child_call h gv \<noteq> None \<Longrightarrow> field_g h gv ''type'' \<noteq> None"
  by (auto simp: child_call_def split: if_splits)

lemma sz_member: "(k, v) \<in> set kvs \<Longrightarrow> sz v \<le> sum_sz kvs"
  by (induction kvs) (auto simp: sum_sz_def)

lemma list_all2_memberD:
  "list_all2 R xs ys \<Longrightarrow> x \<in> set xs \<Longrightarrow> \<exists>y \<in> set ys. R x y"
  by (induction xs ys rule: list_all2_induct) auto

lemma sz_entry: "(k, v) \<in> set (entries t) \<Longrightarrow> 0 < sz v \<Longrightarrow> sz v < sz t"
proof (cases t)
  case (JObj kvs)
  assume "(k, v) \<in> set (entries t)"
  with JObj have "sz v \<le> sum_sz kvs"
    by (auto intro: sz_member)
  with JObj show ?thesis by (simp add: sum_sz_def)
next
  case (JArr xs)
  assume "(k, v) \<in> set (entries t)"
  with JArr have "v \<in> set xs" by (auto dest: set_zip_rightD)
  then have "sz v \<le> sum_list (map sz xs)" by (auto intro: member_le_sum_list)
  with JArr show ?thesis by simp
next
  case (JStr s)
  assume "(k, v) \<in> set (entries t)" "0 < sz v"
  with JStr show ?thesis by (auto dest!: set_zip_rightD)
qed simp_all

lemma shallow_None: "0 < n \<Longrightarrow> shallow n h None"
  by (cases n) (simp_all add: oentries_g_def)

lemma rep_shallow: "rep h gv t \<Longrightarrow> sz t < n \<Longrightarrow> shallow n h (Some gv)"
proof (induction n arbitrary: gv t)
  case 0
  then show ?case by simp
next
  case (Suc n)
  have "case child_call h v of None \<Rightarrow> True | Some po' \<Rightarrow> shallow n h po'"
    if mem: "(k, v) \<in> set (oentries_g h (Some gv))" for k v
  proof (cases "child_call h v")
    case None
    then show ?thesis by simp
  next
    case (Some gpo)
    from Suc.prems(1) have "list_all2 (rep_entry h) (oentries_g h (Some gv)) (oentries (Some t))"
      by (intro rep_oentries) simp
    from list_all2_memberD [OF this mem]
    obtain kv where kv: "kv \<in> set (oentries (Some t))" "rep h v (snd kv)"
      by auto
    then have ent: "(fst kv, snd kv) \<in> set (entries t)"
      by (auto simp: oentries_def split: if_splits)
    from rep_child_call [OF kv(2)] Some have rel: "rel_option (rep h) gpo (child_props (snd kv))"
      by simp
    from Some have "field_g h v ''type'' \<noteq> None" by (intro child_call_typed) simp
    with rep_field [OF kv(2), of "''type''"] have "field (snd kv) ''type'' \<noteq> None"
      by (cases "field_g h v ''type''"; cases "field (snd kv) ''type''") simp_all
    then have pos: "0 < sz (snd kv)" by (cases "snd kv") simp_all
    from sz_entry [OF ent pos] Suc.prems(2) have small: "sz (snd kv) < n" by simp
    show ?thesis
    proof (cases gpo)
      case None
      with small Some show ?thesis by (simp add: shallow_None)
    next
      case gp: (Some gp)
      with rel obtain p where p: "child_props (snd kv) = Some p" "rep h gp p"
        by (cases "child_props (snd kv)") simp_all
      from sz_child_props [OF p(1)] small have "sz p < n" by simp
      from Suc.IH [OF p(2) this] Some gp show ?thesis by simp
    qed
  qed
  then show ?case by (auto simp: list_all_iff)
qed

text \<open>
  The two embeddings agree on trees. \<open>orep\<close> unfolds what the filter has built,
  \<open>arel\<close> relates the two accumulators, and \<open>same_result\<close> says that the filter on
  the graph ended as the filter on the tree did: with the same TypeError, or with the
  same \<^verbatim>\<open>maxDepth\<close> and an output that unfolds to the output on the tree.
\<close>

fun orep :: "graph \<Rightarrow> oval \<Rightarrow> json \<Rightarrow> bool" where
  "orep h (Orig gv) t = rep h gv t"
| "orep h (Fresh okvs) t =
     (case t of
        JObj kvs \<Rightarrow> list_all2 (\<lambda>okv kv. fst okv = fst kv \<and> orep h (snd okv) (snd kv)) okvs kvs
      | _ \<Rightarrow> False)"

abbreviation orep_entry :: "graph \<Rightarrow> string \<times> oval \<Rightarrow> string \<times> json \<Rightarrow> bool" where
  "orep_entry h okv kv \<equiv> fst okv = fst kv \<and> orep h (snd okv) (snd kv)"








lemma orep_Fresh: "orep h (Fresh okvs) t \<longleftrightarrow> (\<exists>kvs. t = JObj kvs \<and> list_all2 (orep_entry h) okvs kvs)"
  by (cases t) simp_all




























end
